theory Spec2Isabelle
  imports Main "HOL-Library.Word" "HOL-Library.Multiset"
begin

unbundle bit_operations_syntax

section \<open>Machine types and device buffers\<close>

text \<open>
  The OpenCL kernels (\<^verbatim>\<open>adaptivepow.cl\<close>) and the host code work on 32-bit \<^verbatim>\<open>uint\<close> and
  64-bit \<^verbatim>\<open>ulong\<close> values; all arithmetic wraps.  A \<^verbatim>\<open>__global uint*\<close> buffer is a store
  from word offsets to 32-bit words.  Private arrays (\<^verbatim>\<open>state[25]\<close>, \<^verbatim>\<open>mix[64]\<close>) are lists.
  An index expression such as \<^verbatim>\<open>dag_idx * 16 + i\<close> has type \<^verbatim>\<open>uint\<close> in OpenCL C, so it is
  computed on 32-bit words before it addresses the buffer.
\<close>

type_synonym uint = "32 word"
type_synonym ulong = "64 word"
type_synonym buffer = "nat \<Rightarrow> uint"

definition DAG_LOADS :: nat where "DAG_LOADS = 64"
definition MATH_OPS :: nat where "MATH_OPS = 16"
definition MIX_WORDS :: nat where "MIX_WORDS = 64"
definition FNV_PRIME :: uint where "FNV_PRIME = 0x01000193"
definition FNV_OFFSET :: uint where "FNV_OFFSET = 0x811c9dc5"

section \<open>Primitives of the kernel file\<close>

text \<open>\<^verbatim>\<open>rotate(x, n)\<close> of OpenCL rotates left by \<^verbatim>\<open>n\<close> modulo the bit width.\<close>

definition ROTL32 :: "uint \<Rightarrow> uint \<Rightarrow> uint" where
  "ROTL32 x n = word_rotl (unat n) x"

definition ROTR32 :: "uint \<Rightarrow> uint \<Rightarrow> uint" where
  "ROTR32 x n = word_rotl (unat (32 - n)) x"

definition fnv1a :: "uint \<Rightarrow> uint \<Rightarrow> uint" where
  "fnv1a a b = (a XOR b) * FNV_PRIME"

text \<open>The built-ins \<^verbatim>\<open>clz\<close> and \<^verbatim>\<open>popcount\<close>; \<^verbatim>\<open>clz(0)\<close> is 32.\<close>

definition clz32 :: "uint \<Rightarrow> uint" where
  "clz32 x = of_nat (length (takeWhile (\<lambda>i. \<not> bit x i) (rev [0..<32])))"

definition popcount32 :: "uint \<Rightarrow> uint" where
  "popcount32 x = of_nat (length (filter (bit x) [0..<32]))"

record kiss99_t =
  z :: uint
  w :: uint
  jsr :: uint
  jcong :: uint

definition kiss99_next :: "kiss99_t \<Rightarrow> uint \<times> kiss99_t" where
  "kiss99_next st =
    (let z' = 36969 * (z st AND 0xffff) + drop_bit 16 (z st);
         w' = 18000 * (w st AND 0xffff) + drop_bit 16 (w st);
         mwc = push_bit 16 z' + w';
         j1 = jsr st XOR push_bit 17 (jsr st);
         j2 = j1 XOR drop_bit 13 j1;
         j3 = j2 XOR push_bit 5 j2;
         c' = 69069 * jcong st + 1234567
     in ((mwc XOR c') + j3, \<lparr>z = z', w = w', jsr = j3, jcong = c'\<rparr>))"

definition keccak_rc :: "uint list" where
  "keccak_rc =
    [0x00000001, 0x00008082, 0x0000808a, 0x80008000,
     0x0000808b, 0x80000001, 0x80008081, 0x00008009,
     0x0000008a, 0x00000088, 0x80008009, 0x8000000a,
     0x8000808b, 0x0000008b, 0x00008089, 0x00008003,
     0x00008002, 0x00000080, 0x0000800a, 0x8000000a,
     0x80008081, 0x00008080]"

text \<open>One round of \<^verbatim>\<open>keccak_f800\<close>, step by step, each loop a fold over its index range.\<close>

definition theta :: "uint list \<Rightarrow> uint list" where
  "theta state =
    (let C = map (\<lambda>i. state ! i XOR state ! (i + 5) XOR state ! (i + 10)
                       XOR state ! (i + 15) XOR state ! (i + 20)) [0..<5];
         D = map (\<lambda>i. C ! ((i + 4) mod 5) XOR ROTL32 (C ! ((i + 1) mod 5)) 1) [0..<5]
     in fold (\<lambda>i s. s[i := s ! i XOR D ! (i mod 5)]) [0..<25] state)"

definition rho_pi :: "uint list \<Rightarrow> uint list" where
  "rho_pi state =
    fst (fold (\<lambda>i (s, temp).
                 let j = (i + 1) mod 25; t = s ! j
                 in (s[j := ROTL32 temp (of_nat ((i + 1) * (i + 2) div 2 mod 32))], t))
              [0..<24] (state, state ! 1))"

definition chi :: "uint list \<Rightarrow> uint list" where
  "chi state =
    fold (\<lambda>j s.
            let t = map (\<lambda>i. s ! (j + i)) [0..<5]
            in fold (\<lambda>i s'. s'[j + i := t ! i XOR (NOT (t ! ((i + 1) mod 5)) AND t ! ((i + 2) mod 5))])
                    [0..<5] s)
         [0, 5, 10, 15, 20] state"

definition iota :: "nat \<Rightarrow> uint list \<Rightarrow> uint list" where
  "iota round state = state[0 := state ! 0 XOR keccak_rc ! round]"

definition keccak_round :: "nat \<Rightarrow> uint list \<Rightarrow> uint list" where
  "keccak_round round state = iota round (chi (rho_pi (theta state)))"

definition keccak_f800 :: "uint list \<Rightarrow> uint list" where
  "keccak_f800 state = fold keccak_round [0..<22] state"

text \<open>\<^verbatim>\<open>random_math_op\<close>: the switch on \<^verbatim>\<open>op % 11\<close>, in the order of its cases.\<close>

definition random_math_op :: "uint \<Rightarrow> uint \<Rightarrow> uint \<Rightarrow> uint" where
  "random_math_op a b op =
    (let k = op mod 11 in
     if k = 0 then a + b
     else if k = 1 then a * b
     else if k = 2 then a - b
     else if k = 3 then a XOR b
     else if k = 4 then ROTL32 a (b AND 31)
     else if k = 5 then ROTR32 a (b AND 31)
     else if k = 6 then a AND b
     else if k = 7 then a OR b
     else if k = 8 then clz32 a + clz32 b
     else if k = 9 then popcount32 a + popcount32 b
     else if k = 10 then drop_bit (unat (b AND 15)) a OR push_bit (unat (16 - (b AND 15))) b
     else a + b)"

section \<open>The search kernel\<close>

text \<open>
  \<^verbatim>\<open>adaptivepow_search\<close>, one work-item.  The private arrays are declared without an
  initialiser; every element is written before it is read, so the model starts them at zero.
\<close>

definition search_nonce :: "ulong \<Rightarrow> uint \<Rightarrow> ulong" where
  "search_nonce start_nonce thread_id = start_nonce + ucast thread_id"

definition search_init_state :: "buffer \<Rightarrow> ulong \<Rightarrow> uint list" where
  "search_init_state header nonce =
    (let s0 = fold (\<lambda>i s. s[i := header i]) [0..<20] (replicate 25 0);
         s1 = s0[19 := ucast nonce];
         s2 = s1[20 := ucast (drop_bit 32 nonce)]
     in fold (\<lambda>i s. s[i := 0]) [21..<25] s2)"

definition search_init_mix :: "uint list \<Rightarrow> uint list" where
  "search_init_mix state =
    fold (\<lambda>i m. m[i := state ! (i mod 25)]) [0..<MIX_WORDS] (replicate MIX_WORDS 0)"

definition search_init_rng :: "uint list \<Rightarrow> kiss99_t" where
  "search_init_rng state =
    (let z0 = fnv1a FNV_OFFSET (state ! 0);
         w0 = fnv1a z0 (state ! 1);
         j0 = fnv1a w0 (state ! 2);
         c0 = fnv1a j0 (state ! 3)
     in \<lparr>z = z0, w = w0, jsr = j0, jcong = c0\<rparr>)"

definition search_math_op :: "uint list \<times> kiss99_t \<Rightarrow> uint list \<times> kiss99_t" where
  "search_math_op = (\<lambda>(mix, rng).
    let (r1, g1) = kiss99_next rng; src1 = r1 mod 64;
        (r2, g2) = kiss99_next g1; src2 = r2 mod 64;
        (r3, g3) = kiss99_next g2; dst = r3 mod 64;
        (op_type, g4) = kiss99_next g3
    in (mix[unat dst := random_math_op (mix ! unat src1) (mix ! unat src2) op_type], g4))"

definition search_dag_load :: "buffer \<Rightarrow> uint \<Rightarrow> uint list" where
  "search_dag_load dag dag_idx = map (\<lambda>i. dag (unat (dag_idx * 16 + of_nat i))) [0..<16]"

definition search_dag_index :: "nat \<Rightarrow> uint list \<Rightarrow> uint \<Rightarrow> uint" where
  "search_dag_index round mix dag_size =
    fnv1a (of_nat round XOR mix ! (round mod MIX_WORDS)) (mix ! ((round + 1) mod MIX_WORDS))
      mod dag_size"

definition search_round :: "buffer \<Rightarrow> uint \<Rightarrow> nat \<Rightarrow> uint list \<times> kiss99_t \<Rightarrow> uint list \<times> kiss99_t" where
  "search_round dag dag_size round = (\<lambda>(mix, rng).
    let dag_idx = search_dag_index round mix dag_size;
        dag_data = search_dag_load dag dag_idx;
        mix' = fold (\<lambda>i m. m[i := fnv1a (m ! i) (dag_data ! i)]) [0..<16] mix
    in fold (\<lambda>op. search_math_op) [0..<MATH_OPS] (mix', rng))"

definition search_compress :: "uint list \<Rightarrow> uint list \<Rightarrow> uint list" where
  "search_compress mix state =
    fold (\<lambda>i s. fold (\<lambda>j s'. s'[i := fnv1a (s' ! i) (mix ! (i * 8 + j))]) [1..<8]
                      (s[i := mix ! (i * 8)]))
         [0..<8] state"

definition search_final_state :: "buffer \<Rightarrow> uint \<Rightarrow> buffer \<Rightarrow> ulong \<Rightarrow> uint list" where
  "search_final_state dag dag_size header nonce =
    (let state = keccak_f800 (search_init_state header nonce);
         mix = search_init_mix state;
         rng = search_init_rng state;
         (mix', rng') = fold (search_round dag dag_size) [0..<DAG_LOADS] (mix, rng);
         state' = search_compress mix' state;
         state'' = fold (\<lambda>i s. s[i := 0]) [8..<25] state'
     in keccak_f800 state'')"

text \<open>
  \<^verbatim>\<open>dag_idx %= dag_size\<close> is evaluated in round 0 of every work-item; with
  \<^verbatim>\<open>dag_size = 0\<close> it is a division by zero, which the model reports as \<open>None\<close>.
\<close>

definition search_hash_high :: "buffer \<Rightarrow> uint \<Rightarrow> buffer \<Rightarrow> ulong \<Rightarrow> ulong option" where
  "search_hash_high dag dag_size header nonce =
    (if dag_size = 0 then None
     else let state = search_final_state dag dag_size header nonce
          in Some (push_bit 32 (ucast (state ! 0)) OR ucast (state ! 1)))"

text \<open>The test \<^verbatim>\<open>hash_high <= target\<close> of the work-item that probes \<open>nonce\<close>.\<close>

definition search_passes :: "buffer \<Rightarrow> uint \<Rightarrow> buffer \<Rightarrow> ulong \<Rightarrow> ulong \<Rightarrow> bool" where
  "search_passes dag dag_size header target nonce =
    (case search_hash_high dag dag_size header nonce of
       None \<Rightarrow> False
     | Some hash_high \<Rightarrow> hash_high \<le> target)"


section \<open>The dataset kernels\<close>

text \<open>
  \<^verbatim>\<open>generate_dag\<close>, one work-item.  \<^verbatim>\<open>idx % cache_size\<close> and
  \<^verbatim>\<open>% (cache_size * 16)\<close> divide by zero when the divisor is 0 (the product is taken
  on 32 bits); the model reports that as \<open>None\<close>.
\<close>

definition dag_mix_round :: "buffer \<Rightarrow> uint \<Rightarrow> uint \<Rightarrow> nat \<Rightarrow> uint list \<Rightarrow> uint list" where
  "dag_mix_round cache cache_size idx round mix =
    (let parent = fnv1a (idx XOR of_nat round) (mix ! 0) mod cache_size
     in fold (\<lambda>i m. m[i := fnv1a (m ! i) (cache (unat (parent * 16 + of_nat i)))]) [0..<16] mix)"

definition dag_mix :: "buffer \<Rightarrow> uint \<Rightarrow> uint \<Rightarrow> uint list" where
  "dag_mix cache cache_size idx =
    (let cache_idx = idx mod cache_size;
         mix0 = fold (\<lambda>i m. m[i := cache (unat ((cache_idx * 16 + of_nat i) mod (cache_size * 16)))])
                     [0..<16] (replicate 16 0);
         mix1 = mix0[0 := mix0 ! 0 XOR idx]
     in fold (dag_mix_round cache cache_size idx) [0..<256] mix1)"

definition generate_dag :: "buffer \<Rightarrow> uint \<Rightarrow> buffer \<Rightarrow> uint \<Rightarrow> uint \<Rightarrow> buffer option" where
  "generate_dag cache cache_size dag dag_items idx =
    (if idx \<ge> dag_items then Some dag
     else if cache_size = 0 \<or> cache_size * 16 = 0 then None
     else let mix = dag_mix cache cache_size idx
          in Some (fold (\<lambda>i d. d(unat (idx * 16 + of_nat i) := mix ! i)) [0..<16] dag))"

text \<open>\<^verbatim>\<open>generate_cache\<close>, one work-item, run on the buffer as it stands when the item reads it.\<close>

definition cache_item_in :: "buffer \<Rightarrow> buffer \<Rightarrow> uint \<Rightarrow> uint list" where
  "cache_item_in seed cache idx =
    (if idx = 0
     then fold (\<lambda>i it. (it[i := seed i])[i + 8 := seed i XOR 0xFFFFFFFF]) [0..<8] (replicate 16 0)
     else fold (\<lambda>i it. it[i := cache (unat ((idx - 1) * 16 + of_nat i))]) [0..<16] (replicate 16 0))"

definition generate_cache :: "buffer \<Rightarrow> buffer \<Rightarrow> uint \<Rightarrow> uint \<Rightarrow> buffer" where
  "generate_cache seed cache cache_items idx =
    (if idx \<ge> cache_items then cache
     else let item = cache_item_in seed cache idx;
              state0 = fold (\<lambda>i s. s[i := item ! i]) [0..<16] (replicate 25 0);
              state1 = fold (\<lambda>i s. s[i := 0]) [16..<25] state0;
              state2 = keccak_f800 state1
          in fold (\<lambda>i c. c(unat (idx * 16 + of_nat i) := state2 ! i)) [0..<16] cache)"

section \<open>Host side: epoch arithmetic, seed, target\<close>

definition DAG_BASE_SIZE :: ulong where "DAG_BASE_SIZE = push_bit 30 1"
definition GROWTH_RATE :: uint where "GROWTH_RATE = 4"
definition HASH_BYTES :: ulong where "HASH_BYTES = 64"

definition getDagSize :: "uint \<Rightarrow> ulong" where
  "getDagSize epoch =
    (let doublings = epoch div GROWTH_RATE;
         doublings' = (if doublings > 10 then 10 else doublings)
     in push_bit (unat doublings') DAG_BASE_SIZE)"

text \<open>The item counts computed in \<^verbatim>\<open>adaptivepow_opencl_generate_dag\<close>.\<close>

definition hostCacheItems :: "ulong \<Rightarrow> uint" where
  "hostCacheItems dagSize = ucast ((dagSize div 64) div HASH_BYTES)"

text \<open>
  \<^verbatim>\<open>adaptivepow_get_seed\<close>: four little-endian epoch bytes, then the byte-wise XOR with
  \<^verbatim>\<open>(epoch * 0x01000193) >> (i % 4 * 8)\<close>, truncated to \<^verbatim>\<open>uint8_t\<close>.
\<close>

definition adaptivepow_get_seed :: "uint \<Rightarrow> 8 word list" where
  "adaptivepow_get_seed epoch =
    (let s0 = replicate 32 0;
         s1 = s0[0 := ucast (epoch AND 0xFF)];
         s2 = s1[1 := ucast (drop_bit 8 epoch AND 0xFF)];
         s3 = s2[2 := ucast (drop_bit 16 epoch AND 0xFF)];
         s4 = s3[3 := ucast (drop_bit 24 epoch AND 0xFF)]
     in fold (\<lambda>i s. s[i := s ! i XOR ucast (drop_bit (i mod 4 * 8) (epoch * 0x01000193))])
             [0..<32] s4)"

text \<open>The seed that \<^verbatim>\<open>adaptivepow_opencl_generate_dag\<close> uploads to the cache kernel.\<close>

definition generate_dag_seed :: "uint \<Rightarrow> 8 word list" where
  "generate_dag_seed epoch =
    (let s0 = replicate 32 0;
         s1 = s0[0 := ucast (epoch AND 0xFF)]
     in s1[1 := ucast (drop_bit 8 epoch AND 0xFF)])"

text \<open>
  C++ shifts: a count that is not smaller than the width of the shifted operand is undefined
  behaviour, which the model reports as \<open>None\<close>.
\<close>

definition shr32 :: "uint \<Rightarrow> uint \<Rightarrow> uint option" where
  "shr32 x n = (if n < 32 then Some (drop_bit (unat n) x) else None)"

definition shr64 :: "ulong \<Rightarrow> uint \<Rightarrow> ulong option" where
  "shr64 x n = (if n < 64 then Some (drop_bit (unat n) x) else None)"

definition bits_to_target64 :: "uint \<Rightarrow> ulong option" where
  "bits_to_target64 nBits =
    (let nSize = drop_bit 24 nBits;
         nWord = nBits AND 0x007fffff
     in if nSize \<le> 3 then map_option ucast (shr32 nWord (8 * (3 - nSize)))
        else shr64 0xFFFFFFFFFFFFFFFF ((nSize - 3) * 8))"

section \<open>The algorithm as the specification words it\<close>

text \<open>
  The per-nonce hash of the specification (Mix search): the DAG is a sequence of items of 16
  words, item \<open>j\<close> occupying the words \<open>16 j .. 16 j + 15\<close>, and indices are natural numbers.
  The primitives (Keccak-f[800], FNV1a, KISS99, the random-op table) are the ones above.
\<close>

definition spec_dag_item :: "buffer \<Rightarrow> nat \<Rightarrow> uint list" where
  "spec_dag_item dag j = map (\<lambda>k. dag (j * 16 + k)) [0..<16]"

definition spec_seed_state :: "buffer \<Rightarrow> ulong \<Rightarrow> uint list" where
  "spec_seed_state header nonce =
    map header [0..<19] @ [ucast nonce, ucast (drop_bit 32 nonce), 0, 0, 0, 0]"

definition spec_mix_init :: "uint list \<Rightarrow> uint list" where
  "spec_mix_init state = map (\<lambda>k. state ! (k mod 25)) [0..<64]"

definition spec_rng_seed :: "uint list \<Rightarrow> kiss99_t" where
  "spec_rng_seed state =
    \<lparr>z = fnv1a FNV_OFFSET (state ! 0),
     w = fnv1a (fnv1a FNV_OFFSET (state ! 0)) (state ! 1),
     jsr = fnv1a (fnv1a (fnv1a FNV_OFFSET (state ! 0)) (state ! 1)) (state ! 2),
     jcong = fnv1a (fnv1a (fnv1a (fnv1a FNV_OFFSET (state ! 0)) (state ! 1)) (state ! 2))
               (state ! 3)\<rparr>"

definition spec_random_op_step :: "uint list \<times> kiss99_t \<Rightarrow> uint list \<times> kiss99_t" where
  "spec_random_op_step = (\<lambda>(mix, rng).
    let s1 = fst (kiss99_next rng) mod 64;
        rng1 = snd (kiss99_next rng);
        s2 = fst (kiss99_next rng1) mod 64;
        rng2 = snd (kiss99_next rng1);
        d = fst (kiss99_next rng2) mod 64;
        rng3 = snd (kiss99_next rng2);
        op_type = fst (kiss99_next rng3);
        rng4 = snd (kiss99_next rng3)
    in (mix[unat d := random_math_op (mix ! unat s1) (mix ! unat s2) op_type], rng4))"

definition spec_main_round :: "buffer \<Rightarrow> nat \<Rightarrow> nat \<Rightarrow> uint list \<times> kiss99_t \<Rightarrow> uint list \<times> kiss99_t" where
  "spec_main_round dag n_dag round = (\<lambda>(mix, rng).
    let dag_idx = unat (fnv1a (of_nat round XOR mix ! (round mod 64)) (mix ! ((round + 1) mod 64)))
                    mod n_dag;
        dag_data = spec_dag_item dag dag_idx;
        merged = map (\<lambda>k. fnv1a (mix ! k) (dag_data ! k)) [0..<16] @ drop 16 mix
    in (spec_random_op_step ^^ 16) (merged, rng))"

definition spec_compress :: "uint list \<Rightarrow> uint list" where
  "spec_compress mix =
    map (\<lambda>i. foldl fnv1a (mix ! (i * 8)) (map (\<lambda>j. mix ! (i * 8 + j)) [1..<8])) [0..<8]"

definition spec_final_state :: "buffer \<Rightarrow> ulong \<Rightarrow> buffer \<Rightarrow> nat \<Rightarrow> uint list" where
  "spec_final_state header nonce dag n_dag =
    (let state = keccak_f800 (spec_seed_state header nonce);
         start = (spec_mix_init state, spec_rng_seed state);
         mix = fst (fold (spec_main_round dag n_dag) [0..<64] start)
     in keccak_f800 (spec_compress mix @ replicate 17 0))"

definition spec_hash_high :: "buffer \<Rightarrow> ulong \<Rightarrow> buffer \<Rightarrow> nat \<Rightarrow> ulong" where
  "spec_hash_high header nonce dag n_dag =
    (let state = spec_final_state header nonce dag n_dag
     in push_bit 32 (ucast (state ! 0)) OR ucast (state ! 1))"

text \<open>The DAG item of the specification (DAG builder), on natural-number indices.\<close>

definition spec_dag_round :: "buffer \<Rightarrow> nat \<Rightarrow> nat \<Rightarrow> nat \<Rightarrow> uint list \<Rightarrow> uint list" where
  "spec_dag_round cache n_cache i round mix =
    (let parent = unat (fnv1a (of_nat i XOR of_nat round) (mix ! 0)) mod n_cache
     in map (\<lambda>k. fnv1a (mix ! k) (cache (parent * 16 + k))) [0..<16])"

definition spec_dag_mix :: "buffer \<Rightarrow> nat \<Rightarrow> nat \<Rightarrow> uint list" where
  "spec_dag_mix cache n_cache i =
    (let mix0 = map (\<lambda>k. cache ((i mod n_cache) * 16 + k)) [0..<16];
         mix1 = mix0[0 := mix0 ! 0 XOR of_nat i]
     in fold (spec_dag_round cache n_cache i) [0..<256] mix1)"

text \<open>The cache block of the specification (Cache builder) that item \<open>i\<close> is computed from.\<close>

definition spec_cache_block :: "buffer \<Rightarrow> buffer \<Rightarrow> nat \<Rightarrow> uint list" where
  "spec_cache_block seed cache i =
    (if i = 0 then map seed [0..<8] @ map (\<lambda>k. seed k XOR 0xFFFFFFFF) [0..<8]
     else map (\<lambda>k. cache ((i - 1) * 16 + k)) [0..<16])"

definition spec_cache_item :: "buffer \<Rightarrow> buffer \<Rightarrow> nat \<Rightarrow> uint list" where
  "spec_cache_item seed cache i = take 16 (keccak_f800 (spec_cache_block seed cache i @ replicate 9 0))"

section \<open>Host side: jobs, batches and the verifier\<close>

text \<open>
  Modelled from the spec: the declarations of \<^verbatim>\<open>miner.h\<close> (\<^verbatim>\<open>MiningJob\<close>,
  \<^verbatim>\<open>MiningResult\<close>) are not part of the sources; the fields are the ones the code uses,
  with the types the specification gives them.  The two hashes are 32-byte arrays.
\<close>

record MiningJob =
  jobId :: string
  prevHash :: "nat \<Rightarrow> 8 word"
  merkleRoot :: "nat \<Rightarrow> 8 word"
  nTime :: uint
  nBits :: uint
  target :: ulong

record MiningResult =
  resultJobId :: string
  nonce :: ulong
  found :: bool

text \<open>
  \<^verbatim>\<open>OpenCLContext\<close>: the state fields and the contents of the device buffers.  The last
  field, \<open>hashedNonces\<close>, is not a member of the struct: it is the ghost log of the device,
  the nonces hashed by the work-items of all the launches so far.
\<close>

record OpenCLContext =
  oclEpoch :: uint
  oclDagSize :: ulong
  oclDagReady :: bool
  dagBuffer :: buffer
  headerBuffer :: buffer
  resultsBuffer :: buffer
  resultCountBuffer :: uint
  hashedNonces :: "ulong list"

record MinerContext =
  deviceId :: int
  epoch :: uint
  dagSize :: ulong
  isCuda :: bool
  dagReady :: bool
  gpuContext :: OpenCLContext
  totalHashes :: ulong
  acceptedShares :: ulong
  rejectedShares :: ulong
  currentNonce :: ulong
  hasResult :: bool
  pendingResult :: MiningResult

text \<open>\<^verbatim>\<open>verify_solution\<close> as it is written: it returns the flag of the result.\<close>

definition verify_solution :: "MiningJob \<Rightarrow> MiningResult \<Rightarrow> bool" where
  "verify_solution job result = found result"



text \<open>
  The header that \<^verbatim>\<open>miner_submit_job\<close> builds: \<^verbatim>\<open>memcpy\<close> of the two hashes on a
  little-endian host, then \<^verbatim>\<open>nTime\<close> and \<^verbatim>\<open>nBits\<close>; words 18 and 19 stay zero.
\<close>

definition le32 :: "(nat \<Rightarrow> 8 word) \<Rightarrow> nat \<Rightarrow> uint" where
  "le32 bytes k =
    ucast (bytes (4 * k)) OR push_bit 8 (ucast (bytes (4 * k + 1)))
      OR push_bit 16 (ucast (bytes (4 * k + 2))) OR push_bit 24 (ucast (bytes (4 * k + 3)))"

definition job_header :: "MiningJob \<Rightarrow> buffer" where
  "job_header job = (\<lambda>i.
    if i < 8 then le32 (prevHash job) i
    else if i < 16 then le32 (merkleRoot job) (i - 8)
    else if i = 16 then nTime job
    else if i = 17 then nBits job
    else 0)"




text \<open>
  The DAG as the search kernel sees it through 32-bit word offsets: word \<open>a\<close> of the wrapped
  DAG is word \<open>a mod 2^32\<close> of the buffer.
\<close>

definition wrapped_dag :: "buffer \<Rightarrow> buffer" where
  "wrapped_dag dag = (\<lambda>a. dag (a mod 2 ^ 32))"

text \<open>
  The launch of the cache kernel in \<^verbatim>\<open>adaptivepow_opencl_generate_dag\<close>: the global size is
  the item count rounded up to a multiple of the local size 256, and a launch is the sequence
  of its work-items in the order \<open>sched\<close> in which they take effect.
\<close>

definition cache_global_size :: "nat \<Rightarrow> nat" where
  "cache_global_size n = (n + 256 - 1) div 256 * 256"

definition run_generate_cache :: "buffer \<Rightarrow> buffer \<Rightarrow> uint \<Rightarrow> nat list \<Rightarrow> buffer" where
  "run_generate_cache seed cache cache_items sched =
     fold (\<lambda>t c. generate_cache seed c cache_items (of_nat t)) sched cache"

text \<open>
  The work-items of a launch whose test succeeds, in schedule order, and what a schedule of
  a full batch is: every work-item of the NDRange \<open>0 .. BATCH_SIZE - 1\<close> exactly once.
\<close>

abbreviation hit :: "buffer \<Rightarrow> uint \<Rightarrow> buffer \<Rightarrow> ulong \<Rightarrow> ulong \<Rightarrow> nat \<Rightarrow> bool" where
  "hit dag n header tgt start t \<equiv> search_passes dag n header tgt (search_nonce start (of_nat t))"




definition job0 :: MiningJob where
  "job0 = \<lparr>jobId = ''job'', prevHash = (\<lambda>_. 0), merkleRoot = (\<lambda>_. 0), nTime = 0, nBits = 0,
            target = 0\<rparr>"


section \<open>Evaluation helpers\<close>

lemma upt_numeral_unfold:
  "[i..<numeral n] = (if i < numeral n then i # [Suc i..<numeral n] else [])"
  by (simp add: upt_rec)

lemma replicate_numeral_unfold:
  "replicate (numeral n) x = x # replicate (pred_numeral n) x"
  by (simp add: numeral_eq_Suc)

section \<open>The random-op table\<close>

text \<open>
  Claim C7, as stated: for every 32-bit \<open>a\<close>, entry 10 of the random-op table with \<open>b = 0\<close>,
  \<open>(a >> (0 & 15)) | (0 << (16 - (0 & 15)))\<close>, equals 0.  It fails for \<open>a = 1\<close>: the left
  operand of the OR is \<open>a >> 0 = a\<close>.
\<close>

theorem random_math_op_10_zero_counterexample: "random_math_op 1 0 10 \<noteq> 0"
  by (simp add: random_math_op_def)

text \<open>
  Claim C7, amended: for every 32-bit \<open>a\<close>, \<open>random_math_op(a, 0, 10)\<close> equals \<open>a\<close>
  (the right operand \<open>0 << 16\<close> is 0 and the left operand is \<open>a >> 0\<close>).
\<close>

theorem random_math_op_10_zero: "random_math_op a 0 10 = a"
  by (simp add: random_math_op_def)

section \<open>Compact bits to 64-bit target\<close>

lemma nSize_bound: "unat (drop_bit 24 (bits :: uint)) < 256"
proof -
  have "unat (drop_bit 24 bits) = unat bits div 2 ^ 24"
    by (simp add: drop_bit_eq_div unat_div)
  moreover have "unat bits < 2 ^ 32"
    using unsigned_less [of bits, where ?'a = nat] by simp
  ultimately show ?thesis by simp
qed

lemma unat_times8: "unat (x :: uint) < 2 ^ 29 \<Longrightarrow> unat (8 * x) = 8 * unat x"
  by (simp add: unat_word_ariths)

lemma unat_times8': "unat (x :: uint) < 2 ^ 29 \<Longrightarrow> unat (x * 8) = unat x * 8"
  by (simp add: unat_word_ariths)

lemma bits_to_target64_None_iff:
  "bits_to_target64 bits = None \<longleftrightarrow> 11 \<le> drop_bit 24 bits"
proof -
  let ?s = "drop_bit 24 bits"
  have b: "unat ?s < 256" by (rule nSize_bound)
  show ?thesis
  proof (cases "?s \<le> 3")
    case True
    then have u: "unat ?s \<le> 3" by (simp add: word_le_nat_alt)
    then have "unat (3 - ?s) = 3 - unat ?s"
      by (simp add: unat_sub word_le_nat_alt)
    then have "unat (8 * (3 - ?s)) = 8 * (3 - unat ?s)"
      using u unat_times8 [of "3 - ?s"] by simp
    then have "8 * (3 - ?s) < 32"
      using u by (simp add: word_less_nat_alt)
    moreover have "\<not> 11 \<le> ?s" using u by (simp add: word_le_nat_alt)
    ultimately show ?thesis using True
      by (simp add: bits_to_target64_def shr32_def Let_def)
  next
    case False
    then have u: "3 < unat ?s" by (simp add: word_le_nat_alt)
    then have "unat (?s - 3) = unat ?s - 3"
      by (simp add: unat_sub word_le_nat_alt)
    then have m: "unat ((?s - 3) * 8) = (unat ?s - 3) * 8"
      using b unat_times8' [of "?s - 3"] by simp
    have "(?s - 3) * 8 < 64 \<longleftrightarrow> \<not> 11 \<le> ?s"
      unfolding word_less_nat_alt word_le_nat_alt m using u b by simp arith
    then show ?thesis using False
      by (simp add: bits_to_target64_def shr64_def Let_def)
  qed
qed

lemma bits_to_target64_defined:
  assumes "drop_bit 24 bits \<le> (10 :: uint)"
  shows "bits_to_target64 bits =
    Some (if drop_bit 24 bits \<le> 3
          then ucast (drop_bit (8 * (3 - unat (drop_bit 24 bits))) (bits AND 0x007fffff))
          else drop_bit ((unat (drop_bit 24 bits) - 3) * 8) 0xFFFFFFFFFFFFFFFF)"
proof -
  let ?s = "drop_bit 24 bits"
  have b: "unat ?s \<le> 10" using assms by (simp add: word_le_nat_alt)
  show ?thesis
  proof (cases "?s \<le> 3")
    case True
    then have u: "unat ?s \<le> 3" by (simp add: word_le_nat_alt)
    then have "unat (3 - ?s) = 3 - unat ?s"
      by (simp add: unat_sub word_le_nat_alt)
    then have m: "unat (8 * (3 - ?s)) = 8 * (3 - unat ?s)"
      using u unat_times8 [of "3 - ?s"] by simp
    then have "8 * (3 - ?s) < 32"
      using u by (simp add: word_less_nat_alt)
    then show ?thesis using True m
      by (simp add: bits_to_target64_def shr32_def Let_def)
  next
    case False
    then have u: "3 < unat ?s" by (simp add: word_le_nat_alt)
    then have "unat (?s - 3) = unat ?s - 3"
      by (simp add: unat_sub word_le_nat_alt)
    then have m: "unat ((?s - 3) * 8) = (unat ?s - 3) * 8"
      using b unat_times8' [of "?s - 3"] by simp
    then have "(?s - 3) * 8 < 64"
      using u b by (simp add: word_less_nat_alt)
    then show ?thesis using False m
      by (simp add: bits_to_target64_def shr64_def Let_def)
  qed
qed


text \<open>
  Claim C8: for every 32-bit nBits, with \<open>size = nBits >> 24\<close> and
  \<open>word = nBits & 0x007fffff\<close>, \<open>bits_to_target64\<close> returns \<open>word >> (8 (3 - size))\<close> when
  \<open>size \<le> 3\<close> and \<open>0xFFFFFFFFFFFFFFFF >> ((size - 3) 8)\<close> when \<open>size > 3\<close>.  The code
  returns that value exactly for \<open>size \<le> 10\<close> (lemma \<open>bits_to_target64_defined\<close>); at
  \<open>nBits = 0x0B000000\<close> (size 11) the 64-bit operand is shifted by 64, which has no defined
  result.
\<close>

theorem bits_to_target64_size_11: "bits_to_target64 0x0B000000 = None"
  by (simp add: bits_to_target64_def shr64_def shr32_def)

text \<open>
  Claim C9: for every 32-bit nBits, every shift performed by \<open>bits_to_target64\<close> has a
  count below the width of its operand, so that the error branch of the shifts is never
  taken.  The branch is taken exactly when \<open>nBits >> 24 \<ge> 11\<close> (lemma
  \<open>bits_to_target64_None_iff\<close>), for instance at the usual compact value \<open>0x1d00ffff\<close>
  (size 29, shift count 208).
\<close>

theorem bits_to_target64_1d00ffff: "bits_to_target64 0x1d00ffff = None"
  by (simp add: bits_to_target64_def shr64_def shr32_def)

section \<open>Seed derivation\<close>

text \<open>
  Claim C3: for every epoch the seed is a 32-byte value derived solely from the epoch, the
  Keccak-256 digest of the little-endian 32-bit epoch padded to 32 bytes.  Both derivations
  in the code are functions of the epoch alone and give 32 bytes, but neither is a digest:
  \<open>adaptivepow_get_seed\<close> maps epoch 0 to 32 zero bytes, the seed uploaded by
  \<open>adaptivepow_opencl_generate_dag\<close> keeps only the low 16 bits of the epoch (epochs 0 and
  65536 collide), and the two disagree with each other at epoch 1.
\<close>

theorem seed_not_a_digest:
  "adaptivepow_get_seed 0 = replicate 32 0
   \<and> length (adaptivepow_get_seed 1) = 32
   \<and> generate_dag_seed 0x10000 = generate_dag_seed 0
   \<and> adaptivepow_get_seed 1 \<noteq> generate_dag_seed 1"
  by (simp add: adaptivepow_get_seed_def generate_dag_seed_def upt_numeral_unfold
      replicate_numeral_unfold)

section \<open>The verifier\<close>

lemma ulong_le_max: "(h :: ulong) \<le> 0xFFFFFFFFFFFFFFFF"
proof -
  have "unat h < 2 ^ 64"
    using unsigned_less [of h, where ?'a = nat] by simp
  then show ?thesis by (simp add: word_le_nat_alt)
qed

lemma search_passes_max: "n \<noteq> 0 \<Longrightarrow> search_passes dag n header 0xFFFFFFFFFFFFFFFF x"
  by (simp add: search_passes_def search_hash_high_def Let_def ulong_le_max)



text \<open>
  Claim C1: for every header, nonce and target and a DAG for the epoch, \<open>verify_solution\<close>
  recomputes the hash of the search kernel on the CPU and returns true exactly when the
  recomputed hash passes the target; in particular it returns true for every nonce the
  kernel flags.  The code returns the \<open>found\<close> flag of the result it is given and computes
  no hash (its body is marked as to be implemented): for a job with the maximal target every
  nonce passes the kernel's test on every DAG, yet a result whose flag is false is rejected.
\<close>

theorem verify_solution_returns_flag:
  "verify_solution (job0\<lparr>target := 0xFFFFFFFFFFFFFFFF\<rparr>)
      \<lparr>resultJobId = ''job'', nonce = 0, found = False\<rparr> = False
   \<and> (\<forall>dag. search_passes dag 0x1000000 (job_header (job0\<lparr>target := 0xFFFFFFFFFFFFFFFF\<rparr>))
                 (target (job0\<lparr>target := 0xFFFFFFFFFFFFFFFF\<rparr>)) 0)"
  by (simp add: verify_solution_def search_passes_max)

section \<open>One launch of the search kernel\<close>
























section \<open>What the host reports from a batch\<close>



section \<open>Nonce ranges of successive batches\<close>





section \<open>Loops over private arrays and buffers\<close>

lemma fold_list_update_length:
  "length (fold (\<lambda>i s. s[a i := F i s]) js s) = length s"
  by (induction js arbitrary: s) simp_all

lemma fold_update_nth:
  "k < length xs \<Longrightarrow>
   fold (\<lambda>i s. s[i := h i (s ! i)]) [m..<n] xs ! k
     = (if m \<le> k \<and> k < n then h k (xs ! k) else xs ! k)"
proof (induction n arbitrary: k)
  case 0
  then show ?case by simp
next
  case (Suc n)
  show ?case
  proof (cases "m \<le> n")
    case False
    then show ?thesis by auto
  next
    case True
    let ?s = "fold (\<lambda>i s. s[i := h i (s ! i)]) [m..<n] xs"
    have len: "length ?s = length xs" by (rule fold_list_update_length)
    have step: "fold (\<lambda>i s. s[i := h i (s ! i)]) [m..<Suc n] xs = ?s[n := h n (?s ! n)]"
      using True by simp
    show ?thesis
    proof (cases "k = n")
      case True
      then have "?s ! n = xs ! n" using Suc.IH [of n] Suc.prems by simp
      then show ?thesis using \<open>k = n\<close> \<open>m \<le> n\<close> Suc.prems len by (simp add: step)
    next
      case False
      then show ?thesis using Suc.IH [of k] Suc.prems len by (auto simp: step)
    qed
  qed
qed

lemma fold_set_nth:
  "k < length xs \<Longrightarrow>
   fold (\<lambda>i s. s[i := f i]) [m..<n] xs ! k = (if m \<le> k \<and> k < n then f k else xs ! k)"
  using fold_update_nth [of k xs "\<lambda>i _. f i" m n] by simp

lemma fold_fun_upd_other:
  "\<forall>i \<in> set js. a i \<noteq> x \<Longrightarrow> fold (\<lambda>i d. d(a i := v i)) js d x = d x"
  by (induction js arbitrary: d) auto

lemma fold_fun_upd_hit:
  "distinct (map a js) \<Longrightarrow> i \<in> set js \<Longrightarrow> fold (\<lambda>i d. d(a i := v i)) js d (a i) = v i"
proof (induction js arbitrary: d)
  case Nil
  then show ?case by simp
next
  case (Cons j js)
  show ?case
  proof (cases "i = j")
    case True
    have "fold (\<lambda>i d. d(a i := v i)) js (d(a j := v j)) (a j) = (d(a j := v j)) (a j)"
    proof (rule fold_fun_upd_other)
      show "\<forall>i \<in> set js. a i \<noteq> a j"
        using Cons.prems(1) by (auto simp: image_iff)
    qed
    then show ?thesis using True by (simp add: fun_upd_same del: fun_upd_apply)
  next
    case False
    then show ?thesis using Cons by (simp del: fun_upd_apply)
  qed
qed

section \<open>Index arithmetic on 32 bits\<close>

lemma unat_item_index:
  assumes "unat (j :: uint) < 2 ^ 28" and "i < 16"
  shows "unat (j * 16 + of_nat i) = unat j * 16 + i"
proof -
  have m: "unat (j * 16) = unat j * 16"
    using assms(1) by (simp add: unat_word_ariths)
  have o: "unat (of_nat i :: uint) = i"
    using assms(2) by (simp add: unat_of_nat)
  show ?thesis
    using assms by (simp add: unat_word_ariths(1) m o)
qed

section \<open>Keccak keeps the length of the state\<close>

lemma length_theta: "length (theta s) = length s"
  by (simp add: theta_def Let_def fold_list_update_length)

lemma length_fold_pair:
  "length (fst (fold (\<lambda>i p. ((fst p)[a i := G i p], T i p)) js p)) = length (fst p)"
  by (induction js arbitrary: p) simp_all

lemma length_rho_pi: "length (rho_pi s) = length s"
  by (simp add: rho_pi_def split_def Let_def length_fold_pair)

lemma length_chi: "length (chi s) = length s"
  by (simp add: chi_def Let_def fold_list_update_length)

lemma length_iota: "length (iota r s) = length s"
  by (simp add: iota_def)

lemma length_keccak_round: "length (keccak_round r s) = length s"
  by (simp add: keccak_round_def length_iota length_chi length_rho_pi length_theta)

lemma length_keccak_f800: "length (keccak_f800 s) = length s"
proof -
  have "length (fold keccak_round rs s) = length s" for rs
    by (induction rs arbitrary: s) (simp_all add: length_keccak_round)
  then show ?thesis by (simp add: keccak_f800_def)
qed

section \<open>Keccak on a concrete state\<close>

text \<open>
  Closed forms of the steps of a Keccak round on a 25-word state and of the rotation, by which
  the permutation is evaluated on a concrete state.
\<close>

lemma theta_explicit:
  "theta [s0, s1, s2, s3, s4, s5, s6, s7, s8, s9, s10, s11, s12, s13, s14, s15, s16, s17, s18, s19,
          s20, s21, s22, s23, s24] =
    (let c0 = s0 XOR s5 XOR s10 XOR s15 XOR s20;
         c1 = s1 XOR s6 XOR s11 XOR s16 XOR s21;
         c2 = s2 XOR s7 XOR s12 XOR s17 XOR s22;
         c3 = s3 XOR s8 XOR s13 XOR s18 XOR s23;
         c4 = s4 XOR s9 XOR s14 XOR s19 XOR s24;
         d0 = c4 XOR ROTL32 c1 1;
         d1 = c0 XOR ROTL32 c2 1;
         d2 = c1 XOR ROTL32 c3 1;
         d3 = c2 XOR ROTL32 c4 1;
         d4 = c3 XOR ROTL32 c0 1
     in [s0 XOR d0, s1 XOR d1, s2 XOR d2, s3 XOR d3, s4 XOR d4,
         s5 XOR d0, s6 XOR d1, s7 XOR d2, s8 XOR d3, s9 XOR d4,
         s10 XOR d0, s11 XOR d1, s12 XOR d2, s13 XOR d3, s14 XOR d4,
         s15 XOR d0, s16 XOR d1, s17 XOR d2, s18 XOR d3, s19 XOR d4,
         s20 XOR d0, s21 XOR d1, s22 XOR d2, s23 XOR d3, s24 XOR d4])"
  by (simp add: theta_def Let_def upt_numeral_unfold)

lemma rho_pi_explicit:
  "rho_pi [s0, s1, s2, s3, s4, s5, s6, s7, s8, s9, s10, s11, s12, s13, s14, s15, s16, s17, s18, s19,
          s20, s21, s22, s23, s24] =
    [s0, ROTL32 s1 1, ROTL32 s1 3, ROTL32 s2 6, ROTL32 s3 10, ROTL32 s4 15, ROTL32 s5 21,
     ROTL32 s6 28, ROTL32 s7 4, ROTL32 s8 13, ROTL32 s9 23, ROTL32 s10 2, ROTL32 s11 14,
     ROTL32 s12 27, ROTL32 s13 9, ROTL32 s14 24, ROTL32 s15 8, ROTL32 s16 25, ROTL32 s17 11,
     ROTL32 s18 30, ROTL32 s19 18, ROTL32 s20 7, ROTL32 s21 29, ROTL32 s22 20, ROTL32 s23 12]"
  by (simp add: rho_pi_def Let_def upt_numeral_unfold)

lemma chi_explicit:
  "chi [s0, s1, s2, s3, s4, s5, s6, s7, s8, s9, s10, s11, s12, s13, s14, s15, s16, s17, s18, s19,
          s20, s21, s22, s23, s24] =
    [s0 XOR (NOT s1 AND s2), s1 XOR (NOT s2 AND s3), s2 XOR (NOT s3 AND s4),
     s3 XOR (NOT s4 AND s0), s4 XOR (NOT s0 AND s1),
     s5 XOR (NOT s6 AND s7), s6 XOR (NOT s7 AND s8), s7 XOR (NOT s8 AND s9),
     s8 XOR (NOT s9 AND s5), s9 XOR (NOT s5 AND s6),
     s10 XOR (NOT s11 AND s12), s11 XOR (NOT s12 AND s13), s12 XOR (NOT s13 AND s14),
     s13 XOR (NOT s14 AND s10), s14 XOR (NOT s10 AND s11),
     s15 XOR (NOT s16 AND s17), s16 XOR (NOT s17 AND s18), s17 XOR (NOT s18 AND s19),
     s18 XOR (NOT s19 AND s15), s19 XOR (NOT s15 AND s16),
     s20 XOR (NOT s21 AND s22), s21 XOR (NOT s22 AND s23), s22 XOR (NOT s23 AND s24),
     s23 XOR (NOT s24 AND s20), s24 XOR (NOT s20 AND s21)]"
  by (simp add: chi_def Let_def upt_numeral_unfold)

lemma rot_index:
  fixes j m :: nat
  assumes "j < 32" and "m < 32"
  shows "(j + (32 - m)) mod 32 = (if m \<le> j then j - m else j + 32 - m)"
proof (cases "m \<le> j")
  case True
  then have "j + (32 - m) = 32 + (j - m)" using assms by simp
  then have "(j + (32 - m)) mod 32 = (j - m) mod 32" by (simp only: mod_add_self1)
  then show ?thesis using True assms by simp
next
  case False
  then show ?thesis using assms by simp
qed

lemma word_rotl_shifts:
  "word_rotl n (x :: uint) = push_bit (n mod 32) x OR drop_bit (32 - n mod 32) x"
proof (rule bit_eqI)
  fix j
  assume "possible_bit TYPE(uint) j"
  then have j: "j < 32" by (simp add: possible_bit_def)
  have m: "n mod 32 < 32" by simp
  have "bit (word_rotl n x) j \<longleftrightarrow> bit x ((j + (32 - n mod 32)) mod 32)"
    using j by (simp add: bit_word_rotl_iff)
  also have "\<dots> \<longleftrightarrow> bit x (if n mod 32 \<le> j then j - n mod 32 else j + 32 - n mod 32)"
    by (simp only: rot_index [OF j m])
  also have "\<dots> \<longleftrightarrow> bit (push_bit (n mod 32) x OR drop_bit (32 - n mod 32) x) j"
    using j m by (auto simp: bit_simps add.commute dest: bit_imp_le_length)
  finally show "bit (word_rotl n x) j = bit (push_bit (n mod 32) x OR drop_bit (32 - n mod 32) x) j" .
qed

lemma and_mask32: "(x :: uint) AND 0xFFFFFFFF = x"
proof -
  have "(0xFFFFFFFF :: uint) = - 1" by simp
  then show ?thesis by (simp only: and.right_neutral)
qed

lemma ROTL32_eval:
  "ROTL32 x k = (push_bit (unat k mod 32) x AND 0xFFFFFFFF) OR drop_bit (32 - unat k mod 32) x"
  by (simp only: ROTL32_def word_rotl_shifts and_mask32)

lemma not_and_eval: "NOT (x::uint) AND y = y XOR (x AND y)"
  by (rule bit_eqI) (auto simp: bit_simps)

lemma keccak_f800_zero:
  "keccak_f800 [0, 0, 0, 0, 0, 0, 0, 0, 0, 0, 0, 0, 0, 0, 0, 0, 0, 0, 0, 0, 0, 0, 0, 0, 0] =
     [3019080347, 1710305023, 2816751684, 2933072932, 1391434737, 2651831591,
      686665440, 2261961769, 919034649, 60697894, 1430949096, 2672219244,
      1517891452, 2141175001, 4262829101, 2033445172, 1190063442, 97925135,
      1935219024, 1145291762, 1242556610, 3312531778, 3766616129, 1771375878,
      669435045]"
  by (simp add: keccak_f800_def upt_numeral_unfold keccak_round_def theta_explicit
      rho_pi_explicit chi_explicit iota_def keccak_rc_def ROTL32_eval not_and_eval Let_def)

lemma keccak_f800_seed_block:
  "keccak_f800 [0, 0, 0, 0, 0, 0, 0, 0, 0xFFFFFFFF, 0xFFFFFFFF, 0xFFFFFFFF, 0xFFFFFFFF,
                0xFFFFFFFF, 0xFFFFFFFF, 0xFFFFFFFF, 0xFFFFFFFF, 0, 0, 0, 0, 0, 0, 0, 0, 0] =
     [1440475476, 4127572176, 3636629401, 1996890916, 2023795822, 422767905,
      420613398, 671201298, 2534142004, 2860712441, 4233175930, 3872359297,
      3840426556, 1199181679, 1536589898, 2806290684, 3666889154, 1023309185,
      3495336391, 2656672833, 3407044511, 1694198403, 499087514, 3033526334,
      2812941647]"
  by (simp add: keccak_f800_def upt_numeral_unfold keccak_round_def theta_explicit
      rho_pi_explicit chi_explicit iota_def keccak_rc_def ROTL32_eval not_and_eval Let_def)

lemma keccak_f800_item_0:
  "keccak_f800 [1440475476, 4127572176, 3636629401, 1996890916, 2023795822, 422767905,
      420613398, 671201298, 2534142004, 2860712441, 4233175930, 3872359297,
      3840426556, 1199181679, 1536589898, 2806290684, 0, 0, 0, 0, 0, 0, 0, 0, 0] =
     [1805728152, 2840998092, 1191823956, 2551473309, 449298328, 3598585104,
      1643305479, 2651235370, 717945555, 30969438, 3563856471, 3332260053,
      3353616762, 1918929774, 4100644527, 3011160196, 81894523, 173353498,
      3335122338, 524861729, 3940523540, 1696346123, 386987746, 1072076998,
      37858789]"
  by (simp add: keccak_f800_def upt_numeral_unfold keccak_round_def theta_explicit
      rho_pi_explicit chi_explicit iota_def keccak_rc_def ROTL32_eval not_and_eval Let_def)

section \<open>The cache kernel\<close>

lemma upt_16: "[0..<16] = [0, 1, 2, 3, 4, 5, 6, 7, 8, 9, 10, 11, 12, 13, 14, 15]"
  by (simp add: upt_rec)

lemma upt_8: "[0..<8] = [0, 1, 2, 3, 4, 5, 6, 7]"
  by (simp add: upt_rec)

lemma cache_item_in_first:
  "cache_item_in seed cache 0 = spec_cache_block seed cache 0"
  by (simp add: cache_item_in_def spec_cache_block_def upt_8 replicate_numeral_unfold)

lemma cache_item_in_next:
  assumes "idx \<noteq> 0" and "unat idx \<le> 2 ^ 28"
  shows "cache_item_in seed cache idx = spec_cache_block seed cache (unat idx)"
proof -
  have pos: "0 < unat idx" using assms(1) by (simp add: unat_gt_0)
  then have p: "unat (idx - 1) = unat idx - 1"
    by (simp add: unat_sub word_le_nat_alt)
  then have lt: "unat (idx - 1) < 2 ^ 28" using assms(2) pos by simp
  have "cache_item_in seed cache idx
          = map (\<lambda>k. cache (unat ((idx - 1) * 16 + of_nat k))) [0..<16]"
    using assms(1)
    by (intro nth_equalityI) (simp_all add: cache_item_in_def fold_list_update_length fold_set_nth)
  also have "\<dots> = map (\<lambda>k. cache ((unat idx - 1) * 16 + k)) [0..<16]"
    using unat_item_index [OF lt] p by simp
  finally show ?thesis using pos by (simp add: spec_cache_block_def)
qed

lemma cache_item_in_spec:
  "unat idx \<le> 2 ^ 28 \<Longrightarrow> cache_item_in seed cache idx = spec_cache_block seed cache (unat idx)"
  using cache_item_in_first cache_item_in_next by (cases "idx = 0") auto

lemma length_spec_cache_block: "length (spec_cache_block seed cache i) = 16"
  by (simp add: spec_cache_block_def)

lemma length_cache_item_in: "length (cache_item_in seed cache idx) = 16"
proof (cases "idx = 0")
  case True
  then show ?thesis by (simp add: cache_item_in_first length_spec_cache_block)
next
  case False
  then show ?thesis by (simp add: cache_item_in_def fold_list_update_length)
qed

lemma cache_state_init:
  assumes "length item = 16"
  shows "fold (\<lambda>i s. s[i := 0]) [16..<25]
           (fold (\<lambda>i s. s[i := item ! i]) [0..<16] (replicate 25 0)) = item @ replicate 9 (0 :: uint)"
  using assms
  by (intro nth_equalityI)
     (auto simp: fold_list_update_length fold_set_nth nth_append simp del: upt_rec_numeral)

lemma take_16_nth: "16 \<le> length xs \<Longrightarrow> map (\<lambda>k. xs ! k) [0..<16] = take 16 xs"
  by (intro nth_equalityI) simp_all

lemma item_addresses_distinct: "distinct (map (\<lambda>i. b + (i :: nat)) [0..<16])"
  by (simp add: distinct_map inj_on_def)

lemma generate_cache_write:
  assumes "idx < cache_items" and "unat idx < 2 ^ 28"
  shows "generate_cache seed cache cache_items idx
           = fold (\<lambda>i c. c(unat idx * 16 + i :=
                     keccak_f800 (cache_item_in seed cache idx @ replicate 9 0) ! i)) [0..<16] cache"
proof -
  have len: "length (cache_item_in seed cache idx) = 16"
    by (rule length_cache_item_in)
  have a: "\<forall>i \<in> set [0..<16]. unat (idx * 16 + of_nat i) = unat idx * 16 + i"
    using unat_item_index [OF assms(2)] by simp
  have "fold (\<lambda>i c. c(unat (idx * 16 + of_nat i) := v i)) [0..<16] cache
          = fold (\<lambda>i c. c(unat idx * 16 + i := v i)) [0..<16] cache" for v
    using a by (intro fold_cong) auto
  then show ?thesis
    using assms(1)
    by (simp add: generate_cache_def Let_def cache_state_init [OF len] not_le [symmetric]
        del: upt_rec_numeral)
qed

lemma generate_cache_work_item:
  assumes "idx < cache_items" and "unat cache_items \<le> 2 ^ 28"
  shows "map (\<lambda>k. generate_cache seed cache cache_items idx (unat idx * 16 + k)) [0..<16]
           = spec_cache_item seed cache (unat idx)
         \<and> (\<forall>a. a div 16 \<noteq> unat idx \<longrightarrow> generate_cache seed cache cache_items idx a = cache a)"
proof -
  have lt: "unat idx < 2 ^ 28"
    using assms by (simp add: word_less_nat_alt)
  let ?st = "keccak_f800 (cache_item_in seed cache idx @ replicate 9 0)"
  have w: "generate_cache seed cache cache_items idx
             = fold (\<lambda>i c. c(unat idx * 16 + i := ?st ! i)) [0..<16] cache"
    by (rule generate_cache_write [OF assms(1) lt])
  have len: "length ?st = 25"
    by (simp add: length_keccak_f800 length_cache_item_in)
  have hit: "generate_cache seed cache cache_items idx (unat idx * 16 + k) = ?st ! k" if "k < 16" for k
    unfolding w using fold_fun_upd_hit [OF item_addresses_distinct, of k "unat idx * 16" "\<lambda>i. ?st ! i" cache] that
    by simp
  have "map (\<lambda>k. generate_cache seed cache cache_items idx (unat idx * 16 + k)) [0..<16]
          = map (\<lambda>k. ?st ! k) [0..<16]"
    using hit by simp
  also have "\<dots> = take 16 ?st" using len by (simp add: take_16_nth)
  also have "\<dots> = spec_cache_item seed cache (unat idx)"
    using lt by (simp add: spec_cache_item_def cache_item_in_spec)
  finally have item: "map (\<lambda>k. generate_cache seed cache cache_items idx (unat idx * 16 + k)) [0..<16]
           = spec_cache_item seed cache (unat idx)" .
  have frame: "generate_cache seed cache cache_items idx a = cache a" if "a div 16 \<noteq> unat idx" for a
  proof -
    have "\<forall>i \<in> set [0..<16]. unat idx * 16 + i \<noteq> a"
      using that by auto
    then show ?thesis unfolding w by (rule fold_fun_upd_other)
  qed
  from item frame show ?thesis by blast
qed


lemma hostCacheItems_cases:
  "hostCacheItems (getDagSize e) \<in> {0x40000, 0x80000, 0x100000, 0x200000, 0x400000, 0x800000,
      0x1000000, 0x2000000, 0x4000000, 0x8000000, 0x10000000}"
proof -
  define d where "d = (if e div GROWTH_RATE > 10 then 10 else e div GROWTH_RATE)"
  have "d \<le> 10" by (simp add: d_def not_less)
  then have "unat d \<le> 10" by (simp add: word_le_nat_alt)
  then consider "unat d = 0" | "unat d = 1" | "unat d = 2" | "unat d = 3" | "unat d = 4"
    | "unat d = 5" | "unat d = 6" | "unat d = 7" | "unat d = 8" | "unat d = 9" | "unat d = 10"
    by atomize_elim arith
  then have "hostCacheItems (push_bit (unat d) DAG_BASE_SIZE) \<in> {0x40000, 0x80000, 0x100000,
      0x200000, 0x400000, 0x800000, 0x1000000, 0x2000000, 0x4000000, 0x8000000, 0x10000000}"
    by cases (simp_all add: hostCacheItems_def DAG_BASE_SIZE_def HASH_BYTES_def)
  then show ?thesis by (simp add: getDagSize_def Let_def d_def)
qed

lemma hostCacheItems_le: "unat (hostCacheItems (getDagSize e)) \<le> 2 ^ 28"
  using hostCacheItems_cases [of e] by auto

text \<open>
  When the work-items of a launch take effect in index order, the finished cache satisfies
  the recurrence of the cache builder: every item is computed from its predecessor in the
  same buffer.
\<close>

lemma spec_cache_item_cong:
  assumes "\<And>k. k < 16 \<Longrightarrow> c ((i - Suc 0) * 16 + k) = c' ((i - Suc 0) * 16 + k)"
  shows "spec_cache_item seed c i = spec_cache_item seed c' i"
proof -
  have m: "map (\<lambda>k. c ((i - 1) * 16 + k)) [0..<16] = map (\<lambda>k. c' ((i - 1) * 16 + k)) [0..<16]"
    by (intro map_cong refl) (simp add: assms)
  show ?thesis
    unfolding spec_cache_item_def spec_cache_block_def by (simp only: m)
qed

lemma generate_cache_skip: "cache_items \<le> idx \<Longrightarrow> generate_cache seed cache cache_items idx = cache"
  by (simp add: generate_cache_def)

lemma run_generate_cache_in_order:
  assumes n: "unat cache_items \<le> 2 ^ 28"
  shows "k < 2 ^ 32 \<Longrightarrow> i < k \<Longrightarrow> i < unat cache_items \<Longrightarrow>
         map (\<lambda>j. run_generate_cache seed cache cache_items [0..<k] (i * 16 + j)) [0..<16]
           = spec_cache_item seed (run_generate_cache seed cache cache_items [0..<k]) i"
proof (induction k arbitrary: i)
  case 0
  then show ?case by simp
next
  case (Suc k)
  let ?c = "run_generate_cache seed cache cache_items [0..<k]"
  let ?c' = "run_generate_cache seed cache cache_items [0..<Suc k]"
  have k32: "k < 2 ^ 32" using Suc.prems(1) by simp
  have uk: "unat (of_nat k :: uint) = k" using k32 by (simp add: unat_of_nat)
  have step: "?c' = generate_cache seed ?c cache_items (of_nat k)"
    by (simp add: run_generate_cache_def)
  show ?case
  proof (cases "k < unat cache_items")
    case False
    then have "cache_items \<le> of_nat k" by (simp add: word_le_nat_alt uk)
    then have same: "?c' = ?c" unfolding step by (rule generate_cache_skip)
    have "i < k" using Suc.prems(2,3) False by simp
    then show ?thesis using Suc.IH [OF k32 _ Suc.prems(3)] by (simp only: same)
  next
    case True
    then have lt: "(of_nat k :: uint) < cache_items" by (simp add: word_less_nat_alt uk)
    have wi: "map (\<lambda>j. generate_cache seed ?c cache_items (of_nat k) (k * 16 + j)) [0..<16]
                = spec_cache_item seed ?c k
              \<and> (\<forall>a. a div 16 \<noteq> k \<longrightarrow> generate_cache seed ?c cache_items (of_nat k) a = ?c a)"
      using generate_cache_work_item [OF lt n, of seed ?c] unfolding uk .
    have item: "map (\<lambda>j. ?c' (k * 16 + j)) [0..<16] = spec_cache_item seed ?c k"
      and frame: "\<And>a. a div 16 \<noteq> k \<Longrightarrow> ?c' a = ?c a"
      unfolding step using wi by blast+
    have prev: "?c ((i - Suc 0) * 16 + j) = ?c' ((i - Suc 0) * 16 + j)" if "j < 16" "i \<noteq> 0" for j
    proof -
      have "((i - Suc 0) * 16 + j) div 16 \<noteq> k" using that Suc.prems(2) by simp
      from frame [OF this] show ?thesis by (rule sym)
    qed
    have cong: "spec_cache_item seed ?c i = spec_cache_item seed ?c' i"
    proof (cases "i = 0")
      case True
      then show ?thesis by (simp add: spec_cache_item_def spec_cache_block_def)
    next
      case False
      then show ?thesis by (intro spec_cache_item_cong prev)
    qed
    show ?thesis
    proof (cases "i = k")
      case True
      then show ?thesis using item cong by simp
    next
      case False
      then have ik: "i < k" using Suc.prems(2) by simp
      have "map (\<lambda>j. ?c' (i * 16 + j)) [0..<16] = map (\<lambda>j. ?c (i * 16 + j)) [0..<16]"
        using ik by (intro map_cong refl frame) simp
      then show ?thesis using Suc.IH [OF k32 ik Suc.prems(3)] cong by simp
    qed
  qed
qed

lemma cache_global_size_bounds:
  "n \<le> cache_global_size n" "n \<le> 2 ^ 28 \<Longrightarrow> cache_global_size n < 2 ^ 32"
  by (simp_all add: cache_global_size_def)

lemma host_cache_in_order:
  assumes "i < unat (hostCacheItems (getDagSize e))"
  shows "map (\<lambda>j. run_generate_cache seed cache (hostCacheItems (getDagSize e))
                    [0..<cache_global_size (unat (hostCacheItems (getDagSize e)))] (i * 16 + j)) [0..<16]
           = spec_cache_item seed
               (run_generate_cache seed cache (hostCacheItems (getDagSize e))
                  [0..<cache_global_size (unat (hostCacheItems (getDagSize e)))]) i"
proof -
  let ?n = "unat (hostCacheItems (getDagSize e))"
  have "?n \<le> cache_global_size ?n" by (rule cache_global_size_bounds)
  then have "i < cache_global_size ?n" using assms by simp
  moreover have "cache_global_size ?n < 2 ^ 32"
    using hostCacheItems_le by (rule cache_global_size_bounds)
  ultimately show ?thesis
    using run_generate_cache_in_order [OF hostCacheItems_le _ _ assms] by blast
qed

text \<open>
  A launch in which work-item 1 takes effect before work-item 0: item 1 is computed from the
  item 0 of the buffer as it was before the launch.
\<close>

lemma generate_cache_other_item:
  assumes "unat cache_items \<le> 2 ^ 28" and "a div 16 \<noteq> unat idx"
  shows "generate_cache seed cache cache_items idx a = cache a"
proof (cases "idx < cache_items")
  case True
  then show ?thesis using generate_cache_work_item [OF True assms(1)] assms(2) by blast
next
  case False
  then have "cache_items \<le> idx" by simp
  then show ?thesis by (simp add: generate_cache_skip)
qed

lemma run_generate_cache_other_items:
  assumes "unat cache_items \<le> 2 ^ 28"
  shows "\<forall>t \<in> set sched. t < 2 ^ 32 \<and> t \<noteq> a div 16 \<Longrightarrow>
         run_generate_cache seed cache cache_items sched a = cache a"
proof (induction sched arbitrary: cache)
  case Nil
  then show ?case by (simp add: run_generate_cache_def)
next
  case (Cons t ts)
  have t: "t < 2 ^ 32" "t \<noteq> a div 16" using Cons.prems by simp_all
  then have u: "unat (of_nat t :: uint) = t" by (simp add: unat_of_nat)
  have "run_generate_cache seed cache cache_items (t # ts) a
          = run_generate_cache seed (generate_cache seed cache cache_items (of_nat t)) cache_items ts a"
    by (simp add: run_generate_cache_def)
  also have "\<dots> = generate_cache seed cache cache_items (of_nat t) a"
    using Cons.prems by (intro Cons.IH) simp
  also have "\<dots> = cache a"
    using t(2) by (intro generate_cache_other_item [OF assms]) (simp add: u)
  finally show ?case .
qed

lemma run_generate_cache_1_0:
  assumes n: "unat cache_items \<le> 2 ^ 28" and n2: "1 < cache_items" and g: "g \<le> 2 ^ 32"
  shows "map (\<lambda>k. run_generate_cache seed cache cache_items (1 # 0 # [2..<g]) (16 + k)) [0..<16]
           = spec_cache_item seed cache 1"
    and "map (\<lambda>k. run_generate_cache seed cache cache_items (1 # 0 # [2..<g]) k) [0..<16]
           = spec_cache_item seed cache 0"
proof -
  define c where "c = run_generate_cache seed cache cache_items (1 # 0 # [2..<g])"
  let ?c1 = "generate_cache seed cache cache_items 1"
  let ?c2 = "generate_cache seed ?c1 cache_items 0"
  have n0: "0 < cache_items" using n2 by (simp add: word_less_nat_alt)
  have c: "c = run_generate_cache seed ?c2 cache_items [2..<g]"
    unfolding c_def by (simp add: run_generate_cache_def)
  have rest: "c a = ?c2 a" if "a < 32" for a
  proof -
    have "a div 16 < 2" using that by simp
    then have "\<forall>t \<in> set [2..<g]. t < 2 ^ 32 \<and> t \<noteq> a div 16"
      using g by auto
    then show ?thesis unfolding c by (rule run_generate_cache_other_items [OF n])
  qed
  have w1: "map (\<lambda>k. ?c1 (16 + k)) [0..<16] = spec_cache_item seed cache 1"
    using generate_cache_work_item [OF n2 n, of seed cache] by simp
  have w0: "map (\<lambda>k. ?c2 k) [0..<16] = spec_cache_item seed ?c1 0"
    and f0: "\<And>a. a div 16 \<noteq> 0 \<Longrightarrow> ?c2 a = ?c1 a"
    using generate_cache_work_item [OF n0 n, of seed ?c1] by simp_all
  have "map (\<lambda>k. c (16 + k)) [0..<16] = map (\<lambda>k. ?c2 (16 + k)) [0..<16]"
    by (intro map_cong refl rest) simp
  also have "\<dots> = map (\<lambda>k. ?c1 (16 + k)) [0..<16]"
    by (intro map_cong refl f0) simp
  finally show "map (\<lambda>k. run_generate_cache seed cache cache_items (1 # 0 # [2..<g]) (16 + k)) [0..<16]
           = spec_cache_item seed cache 1"
    using w1 by (simp add: c_def)
  have "map (\<lambda>k. c k) [0..<16] = map (\<lambda>k. ?c2 k) [0..<16]"
    by (intro map_cong refl rest) simp
  also have "\<dots> = spec_cache_item seed ?c1 0" by (rule w0)
  also have "\<dots> = spec_cache_item seed cache 0"
    by (simp add: spec_cache_item_def spec_cache_block_def)
  finally show "map (\<lambda>k. run_generate_cache seed cache cache_items (1 # 0 # [2..<g]) k) [0..<16]
           = spec_cache_item seed cache 0"
    by (simp add: c_def)
qed

lemma spec_cache_item_zero_1:
  "spec_cache_item seed (\<lambda>_. 0) 1 =
     [3019080347, 1710305023, 2816751684, 2933072932, 1391434737, 2651831591,
      686665440, 2261961769, 919034649, 60697894, 1430949096, 2672219244,
      1517891452, 2141175001, 4262829101, 2033445172]"
  by (simp add: spec_cache_item_def spec_cache_block_def upt_16 replicate_numeral_unfold
      keccak_f800_zero)

lemma spec_cache_item_zero_seed_0:
  "spec_cache_item (\<lambda>_. 0) cache 0 =
     [1440475476, 4127572176, 3636629401, 1996890916, 2023795822, 422767905,
      420613398, 671201298, 2534142004, 2860712441, 4233175930, 3872359297,
      3840426556, 1199181679, 1536589898, 2806290684]"
  by (simp add: spec_cache_item_def spec_cache_block_def upt_8 replicate_numeral_unfold
      keccak_f800_seed_block)

lemma host_cache_items_0: "hostCacheItems (getDagSize 0) = 0x40000"
  by (simp add: hostCacheItems_def getDagSize_def GROWTH_RATE_def DAG_BASE_SIZE_def HASH_BYTES_def)

text \<open>
  Claim C4: for every seed and every cache index \<open>i < n_cache\<close>, \<open>generate_cache\<close> produces
  \<open>cache[i]\<close> equal to the first 16 words of Keccak-f[800] applied to the 25-word state whose
  first 16 words are the block \<open>b_i\<close> and whose other 9 words are zero, where \<open>b_0\<close> is the 8 seed
  words followed by the seed words XOR \<open>0xFFFFFFFF\<close> and \<open>b_i = cache[i - 1]\<close> for \<open>i > 0\<close>.
  Each work-item computes its item from the item before it as the buffer holds it when the
  work-item runs (lemma \<open>generate_cache_work_item\<close>), and the host launches all work-items in
  one NDRange, which fixes no order between them.  For epoch 0 (\<open>n_cache = 2^18\<close>, seed of
  zero words) on a zeroed buffer, with work-item 1 taking effect before work-item 0, the
  launch leaves in \<open>cache[1]\<close> the permutation of the zero state, which is not the item that
  the claim derives from the \<open>cache[0]\<close> of the same finished cache.
\<close>

theorem generate_cache_out_of_order:
  "map (\<lambda>k. run_generate_cache (\<lambda>_. 0) (\<lambda>_. 0) (hostCacheItems (getDagSize 0))
               (1 # 0 # [2..<cache_global_size (unat (hostCacheItems (getDagSize 0)))]) (16 + k))
       [0..<16]
     = [3019080347, 1710305023, 2816751684, 2933072932, 1391434737, 2651831591,
        686665440, 2261961769, 919034649, 60697894, 1430949096, 2672219244,
        1517891452, 2141175001, 4262829101, 2033445172]
   \<and> spec_cache_item (\<lambda>_. 0)
       (run_generate_cache (\<lambda>_. 0) (\<lambda>_. 0) (hostCacheItems (getDagSize 0))
          (1 # 0 # [2..<cache_global_size (unat (hostCacheItems (getDagSize 0)))])) 1
     = [1805728152, 2840998092, 1191823956, 2551473309, 449298328, 3598585104,
        1643305479, 2651235370, 717945555, 30969438, 3563856471, 3332260053,
        3353616762, 1918929774, 4100644527, 3011160196]"
proof -
  let ?n = "hostCacheItems (getDagSize 0)"
  let ?g = "cache_global_size (unat ?n)"
  let ?c = "run_generate_cache (\<lambda>_. 0) (\<lambda>_. 0) ?n (1 # 0 # [2..<?g])"
  have n: "unat ?n \<le> 2 ^ 28" by (rule hostCacheItems_le)
  have n2: "1 < ?n" by (simp add: host_cache_items_0)
  have g: "?g \<le> 2 ^ 32"
    using cache_global_size_bounds(2) [OF n] by simp
  have i1: "map (\<lambda>k. ?c (16 + k)) [0..<16] = spec_cache_item (\<lambda>_. 0) (\<lambda>_. 0) 1"
    and i0: "map (\<lambda>k. ?c k) [0..<16] = spec_cache_item (\<lambda>_. 0) (\<lambda>_. 0) 0"
    using run_generate_cache_1_0 [OF n n2 g] by blast+
  have b: "spec_cache_block (\<lambda>_. 0) ?c 1 = map (\<lambda>k. ?c k) [0..<16]"
    by (simp add: spec_cache_block_def del: upt_rec_numeral)
  have "spec_cache_item (\<lambda>_. 0) ?c 1
          = take 16 (keccak_f800 (spec_cache_item (\<lambda>_. 0) (\<lambda>_. 0) 0 @ replicate 9 0))"
    unfolding spec_cache_item_def [of _ ?c 1] b i0 ..
  also have "\<dots> = [1805728152, 2840998092, 1191823956, 2551473309, 449298328, 3598585104,
        1643305479, 2651235370, 717945555, 30969438, 3563856471, 3332260053,
        3353616762, 1918929774, 4100644527, 3011160196]"
    by (simp add: spec_cache_item_zero_seed_0 replicate_numeral_unfold keccak_f800_item_0)
  finally show ?thesis using i1 by (simp only: spec_cache_item_zero_1 simp_thms)
qed

section \<open>The DAG kernel\<close>

lemma unat_mod_less: "(c :: uint) \<noteq> 0 \<Longrightarrow> unat (x mod c) < unat c"
  by (simp add: unat_mod unat_gt_0)

lemma dag_mix_round_spec:
  assumes "cache_size \<noteq> 0" and "unat cache_size \<le> 2 ^ 28" and "length mix = 16"
  shows "dag_mix_round cache cache_size idx round mix
           = spec_dag_round cache (unat cache_size) (unat idx) round mix"
proof -
  let ?p = "fnv1a (idx XOR of_nat round) (mix ! 0) mod cache_size"
  have lt: "unat ?p < 2 ^ 28"
    using unat_mod_less [OF assms(1), of "fnv1a (idx XOR of_nat round) (mix ! 0)"] assms(2) by simp
  have p: "unat ?p = unat (fnv1a (of_nat (unat idx) XOR of_nat round) (mix ! 0)) mod unat cache_size"
    by (simp add: unat_mod)
  have "dag_mix_round cache cache_size idx round mix
          = map (\<lambda>k. fnv1a (mix ! k) (cache (unat (?p * 16 + of_nat k)))) [0..<16]"
    using assms(3)
    by (intro nth_equalityI)
       (simp_all add: dag_mix_round_def Let_def fold_list_update_length
          fold_update_nth [where h = "\<lambda>i x. fnv1a x (cache (unat (?p * 16 + of_nat i)))"])
  also have "\<dots> = map (\<lambda>k. fnv1a (mix ! k) (cache (unat ?p * 16 + k))) [0..<16]"
    using unat_item_index [OF lt] by simp
  finally show ?thesis
    by (simp add: spec_dag_round_def Let_def p)
qed

lemma length_spec_dag_round: "length (spec_dag_round cache n i round mix) = 16"
  by (simp add: spec_dag_round_def Let_def)

lemma dag_mix_rounds_spec:
  assumes "cache_size \<noteq> 0" and "unat cache_size \<le> 2 ^ 28"
  shows "length mix = 16 \<Longrightarrow>
         fold (dag_mix_round cache cache_size idx) rs mix
           = fold (spec_dag_round cache (unat cache_size) (unat idx)) rs mix"
proof (induction rs arbitrary: mix)
  case Nil
  then show ?case by simp
next
  case (Cons r rs)
  have "dag_mix_round cache cache_size idx r mix
          = spec_dag_round cache (unat cache_size) (unat idx) r mix"
    by (rule dag_mix_round_spec [OF assms Cons.prems])
  then show ?case
    using Cons.IH [of "spec_dag_round cache (unat cache_size) (unat idx) r mix"]
    by (simp add: length_spec_dag_round)
qed

lemma dag_mix_spec:
  assumes "cache_size \<noteq> 0" and "unat cache_size < 2 ^ 28"
  shows "dag_mix cache cache_size idx = spec_dag_mix cache (unat cache_size) (unat idx)"
proof -
  let ?c = "idx mod cache_size"
  have c: "unat ?c = unat idx mod unat cache_size" by (simp add: unat_mod)
  have lt: "unat ?c < unat cache_size" by (rule unat_mod_less [OF assms(1)])
  then have lt28: "unat ?c < 2 ^ 28" using assms(2) by simp
  have s16: "unat (cache_size * 16) = unat cache_size * 16"
    using assms(2) by (simp add: unat_word_ariths)
  have addr: "unat ((?c * 16 + of_nat k) mod (cache_size * 16)) = unat ?c * 16 + k" if "k < 16" for k
  proof -
    have "unat (?c * 16 + of_nat k) = unat ?c * 16 + k"
      by (rule unat_item_index [OF lt28 that])
    moreover have "unat ?c * 16 + k < unat cache_size * 16" using lt that by simp
    ultimately show ?thesis by (simp add: unat_mod s16)
  qed
  let ?m0 = "fold (\<lambda>i m. m[i := cache (unat ((?c * 16 + of_nat i) mod (cache_size * 16)))])
               [0..<16] (replicate 16 0)"
  have m0: "?m0 = map (\<lambda>k. cache (unat idx mod unat cache_size * 16 + k)) [0..<16]"
    using addr c by (intro nth_equalityI) (simp_all add: fold_list_update_length fold_set_nth)
  have len: "length (?m0[0 := ?m0 ! 0 XOR idx]) = 16"
    by (simp add: fold_list_update_length)
  have le: "unat cache_size \<le> 2 ^ 28" using assms(2) by simp
  show ?thesis
    unfolding dag_mix_def spec_dag_mix_def Let_def
    using dag_mix_rounds_spec [OF assms(1) le len, of cache idx "[0..<256]"]
    by (simp only: m0 of_nat_unat ucast_id)
qed

text \<open>A work-item writes the 16 words at the wrapped offsets \<open>idx * 16 + i\<close> and nothing else.\<close>

lemma generate_dag_write:
  assumes "idx < dag_items" and "cache_size \<noteq> 0" and "unat cache_size < 2 ^ 28"
  shows "generate_dag cache cache_size dag dag_items idx
           = Some (fold (\<lambda>i d. d(unat (idx * 16 + of_nat i)
                       := spec_dag_mix cache (unat cache_size) (unat idx) ! i)) [0..<16] dag)"
proof -
  have "unat (cache_size * 16) = unat cache_size * 16"
    using assms(3) by (simp add: unat_word_ariths)
  then have "cache_size * 16 \<noteq> 0"
    using assms(2) by (metis mult_eq_0_iff unat_eq_0 zero_neq_numeral)
  then show ?thesis
    using assms by (simp add: generate_dag_def Let_def dag_mix_spec not_le [symmetric])
qed

lemma generate_dag_small:
  assumes "idx < dag_items" and "cache_size \<noteq> 0" and "unat cache_size < 2 ^ 28"
    and "unat idx < 2 ^ 28"
  shows "\<exists>d. generate_dag cache cache_size dag dag_items idx = Some d
           \<and> map (\<lambda>k. d (unat idx * 16 + k)) [0..<16] = spec_dag_mix cache (unat cache_size) (unat idx)
           \<and> (\<forall>a. a div 16 \<noteq> unat idx \<longrightarrow> d a = dag a)"
proof -
  let ?mix = "spec_dag_mix cache (unat cache_size) (unat idx)"
  let ?d = "fold (\<lambda>i d. d(unat idx * 16 + i := ?mix ! i)) [0..<16] dag"
  have "\<forall>i \<in> set [0..<16]. unat (idx * 16 + of_nat i) = unat idx * 16 + i"
    using unat_item_index [OF assms(4)] by simp
  then have "fold (\<lambda>i d. d(unat (idx * 16 + of_nat i) := ?mix ! i)) [0..<16] dag = ?d"
    by (intro fold_cong) auto
  then have w: "generate_dag cache cache_size dag dag_items idx = Some ?d"
    using generate_dag_write [OF assms(1-3)] by simp
  have len: "length ?mix = 16"
  proof -
    have "length (fold (spec_dag_round cache n i) rs m) = 16" if "length m = 16" for rs m n i
      using that by (induction rs arbitrary: m) (simp_all add: length_spec_dag_round)
    then show ?thesis by (simp add: spec_dag_mix_def Let_def)
  qed
  have hit: "?d (unat idx * 16 + k) = ?mix ! k" if "k < 16" for k
    using fold_fun_upd_hit [OF item_addresses_distinct, of k "unat idx * 16" "\<lambda>i. ?mix ! i" dag] that
    by simp
  have "map (\<lambda>k. ?d (unat idx * 16 + k)) [0..<16] = map (\<lambda>k. ?mix ! k) [0..<16]"
    using hit by simp
  also have "\<dots> = ?mix" using len by (simp add: take_16_nth)
  finally have item: "map (\<lambda>k. ?d (unat idx * 16 + k)) [0..<16] = ?mix" .
  have frame: "?d a = dag a" if "a div 16 \<noteq> unat idx" for a
  proof -
    have "\<forall>i \<in> set [0..<16]. unat idx * 16 + i \<noteq> a" using that by auto
    then show ?thesis by (rule fold_fun_upd_other)
  qed
  from w item frame show ?thesis by blast
qed

text \<open>Work-item \<open>2^28\<close>: the offsets \<open>idx * 16 + i\<close> wrap to \<open>i\<close>.\<close>

lemma wrapped_offset: "i < 16 \<Longrightarrow> unat ((0x10000000 :: uint) * 16 + of_nat i) = i"
  by (simp add: unat_word_ariths unat_of_nat)

lemma spec_dag_mix_zero_cache: "spec_dag_mix (\<lambda>_. 0) n i ! 1 = 0"
proof -
  have "length (fold (spec_dag_round (\<lambda>_. 0) n i) rs m) = 16
        \<and> fold (spec_dag_round (\<lambda>_. 0) n i) rs m ! 1 = 0"
    if "length m = 16" and "m ! 1 = 0" for rs m
    using that
  proof (induction rs arbitrary: m)
    case Nil
    then show ?case by simp
  next
    case (Cons r rs)
    have "length (spec_dag_round (\<lambda>_. 0) n i r m) = 16"
      by (rule length_spec_dag_round)
    moreover have "spec_dag_round (\<lambda>_. 0) n i r m ! 1 = 0"
      using Cons.prems by (simp add: spec_dag_round_def Let_def fnv1a_def)
    ultimately show ?case using Cons.IH by simp
  qed
  then show ?thesis
    by (simp add: spec_dag_mix_def Let_def)
qed

lemma generate_dag_item_2_28_kept:
  "\<forall>dag0. \<exists>d. generate_dag (\<lambda>_. 0) 0x800000 dag0 0x20000000 0x10000000 = Some d
      \<and> map (\<lambda>k. d (0x10000000 * 16 + k)) [0..<16] = map (\<lambda>k. dag0 (0x10000000 * 16 + k)) [0..<16]
      \<and> map d [0..<16] = spec_dag_mix (\<lambda>_. 0) 0x800000 0x10000000"
proof
  fix dag0 :: buffer
  let ?mix = "spec_dag_mix (\<lambda>_. 0) (unat (0x800000 :: uint)) (unat (0x10000000 :: uint))"
  let ?d = "fold (\<lambda>i d. d(0 + i := ?mix ! i)) [0..<16] dag0"
  have "\<forall>i \<in> set [0..<16]. unat ((0x10000000 :: uint) * 16 + of_nat i) = 0 + i"
    using wrapped_offset by simp
  then have "fold (\<lambda>i d. d(unat ((0x10000000 :: uint) * 16 + of_nat i) := ?mix ! i)) [0..<16] dag0 = ?d"
    by (intro fold_cong) auto
  moreover have "generate_dag (\<lambda>_. 0) 0x800000 dag0 0x20000000 0x10000000
      = Some (fold (\<lambda>i d. d(unat ((0x10000000 :: uint) * 16 + of_nat i) := ?mix ! i)) [0..<16] dag0)"
    by (rule generate_dag_write) simp_all
  ultimately have w: "generate_dag (\<lambda>_. 0) 0x800000 dag0 0x20000000 0x10000000 = Some ?d"
    by simp
  have len: "length ?mix = 16"
  proof -
    have "length (fold (spec_dag_round cache n i) rs m) = 16" if "length m = 16" for rs m n i cache
      using that by (induction rs arbitrary: m) (simp_all add: length_spec_dag_round)
    then show ?thesis by (simp add: spec_dag_mix_def Let_def)
  qed
  have kept: "?d (0x10000000 * 16 + k) = dag0 (0x10000000 * 16 + k)" for k
  proof -
    have "\<forall>i \<in> set [0..<16]. 0 + i \<noteq> 0x10000000 * 16 + k" by simp
    then show ?thesis by (rule fold_fun_upd_other)
  qed
  have hit: "?d k = ?mix ! k" if "k < 16" for k
    using fold_fun_upd_hit [OF item_addresses_distinct, of k 0 "\<lambda>i. ?mix ! i" dag0] that by simp
  have "map ?d [0..<16] = map (\<lambda>k. ?mix ! k) [0..<16]" using hit by simp
  also have "\<dots> = ?mix" using len by (simp add: take_16_nth)
  finally have "map ?d [0..<16] = ?mix" .
  with w kept show "\<exists>d. generate_dag (\<lambda>_. 0) 0x800000 dag0 0x20000000 0x10000000 = Some d
      \<and> map (\<lambda>k. d (0x10000000 * 16 + k)) [0..<16] = map (\<lambda>k. dag0 (0x10000000 * 16 + k)) [0..<16]
      \<and> map d [0..<16] = spec_dag_mix (\<lambda>_. 0) 0x800000 0x10000000"
    by simp
qed

text \<open>
  Claim C5: for every cache of \<open>n_cache \<ge> 1\<close> items and every DAG index \<open>i < n_dag\<close>,
  \<open>generate_dag\<close> writes \<open>dag[i]\<close> equal to the mix of the DAG builder (the 16 words of cache
  item \<open>i mod n_cache\<close>, word 0 XORed with \<open>i\<close>, then 256 FNV rounds over cache parents).
  The mix is computed as claimed, and it is stored in item \<open>i\<close> for \<open>i < 2^28\<close> (lemma
  \<open>generate_dag_small\<close>); but the store offset \<open>idx * 16 + i\<close> is a 32-bit product.  With
  \<open>n_cache = 2^23\<close> and \<open>n_dag = 2^29\<close> (the sizes of epoch 20), work-item \<open>i = 2^28\<close> leaves
  item \<open>2^28\<close> as it was, whatever it held, and stores its mix in item 0; on a DAG buffer
  filled with ones, item \<open>2^28\<close> is then not the mix.
\<close>

theorem generate_dag_item_2_28:
  "(\<forall>dag0. \<exists>d. generate_dag (\<lambda>_. 0) 0x800000 dag0 0x20000000 0x10000000 = Some d
      \<and> map (\<lambda>k. d (0x10000000 * 16 + k)) [0..<16] = map (\<lambda>k. dag0 (0x10000000 * 16 + k)) [0..<16]
      \<and> map d [0..<16] = spec_dag_mix (\<lambda>_. 0) 0x800000 0x10000000)
   \<and> (\<exists>d. generate_dag (\<lambda>_. 0) 0x800000 (\<lambda>_. 1) 0x20000000 0x10000000 = Some d
      \<and> map (\<lambda>k. d (0x10000000 * 16 + k)) [0..<16] \<noteq> spec_dag_mix (\<lambda>_. 0) 0x800000 0x10000000)"
proof -
  obtain d where d: "generate_dag (\<lambda>_. 0) 0x800000 (\<lambda>_. 1) 0x20000000 0x10000000 = Some d"
    and kept: "map (\<lambda>k. d (0x10000000 * 16 + k)) [0..<16] = map (\<lambda>k. (1 :: uint)) [0..<16]"
    using generate_dag_item_2_28_kept by blast
  have "map (\<lambda>k. d (0x10000000 * 16 + k)) [0..<16] ! 1 = 1"
    unfolding kept by simp
  moreover have "spec_dag_mix (\<lambda>_. 0) 0x800000 0x10000000 ! 1 = 0"
    by (rule spec_dag_mix_zero_cache)
  ultimately have "map (\<lambda>k. d (0x10000000 * 16 + k)) [0..<16] \<noteq> spec_dag_mix (\<lambda>_. 0) 0x800000 0x10000000"
    by (metis zero_neq_one)
  with d generate_dag_item_2_28_kept show ?thesis by blast
qed

section \<open>The search kernel against the specification\<close>

lemma search_init_state_spec: "search_init_state header x = spec_seed_state header x"
  by (simp add: search_init_state_def spec_seed_state_def Let_def
      upt_numeral_unfold replicate_numeral_unfold)

lemma search_init_mix_spec: "search_init_mix state = spec_mix_init state"
  by (intro nth_equalityI)
     (simp_all add: search_init_mix_def spec_mix_init_def MIX_WORDS_def
        fold_list_update_length fold_set_nth)

lemma search_init_rng_spec: "search_init_rng state = spec_rng_seed state"
  by (simp add: search_init_rng_def spec_rng_seed_def Let_def)

lemma search_math_op_spec: "search_math_op = spec_random_op_step"
  by (simp add: search_math_op_def spec_random_op_step_def split_def Let_def fun_eq_iff)

lemma fold_const_funpow: "fold (\<lambda>_. f) xs = f ^^ length xs"
  by (induction xs) (simp_all add: funpow_swap1 fun_eq_iff)

lemma length_search_math_op: "length (fst (search_math_op p)) = length (fst p)"
  by (simp add: search_math_op_def split_def Let_def)

lemma length_math_ops: "length (fst ((search_math_op ^^ n) p)) = length (fst p)"
  by (induction n) (simp_all add: length_search_math_op)

text \<open>
  The load of the kernel: the 32-bit offset \<open>dag_idx * 16 + i\<close> addresses the DAG modulo
  \<open>2^32\<close> words, so the kernel reads the items of the wrapped DAG.
\<close>

lemma unat_wrapped_offset:
  assumes "k < 16"
  shows "unat ((i :: uint) * 16 + of_nat k) = (unat i * 16 + k) mod 2 ^ 32"
proof -
  have "unat (of_nat k :: uint) = k" using assms by (simp add: unat_of_nat)
  then show ?thesis
    by (simp add: unat_word_ariths mod_add_left_eq)
qed

lemma search_dag_load_wrapped:
  "search_dag_load dag dag_idx = spec_dag_item (wrapped_dag dag) (unat dag_idx)"
  using unat_wrapped_offset [of _ dag_idx]
  by (simp add: search_dag_load_def spec_dag_item_def wrapped_dag_def)

lemma search_round_wrapped:
  assumes "length (fst p) = 64"
  shows "search_round dag dag_size round p
           = spec_main_round (wrapped_dag dag) (unat dag_size) round p"
proof -
  obtain mix rng where p: "p = (mix, rng)" by (cases p)
  have len: "length mix = 64" using assms p by simp
  have merge: "fold (\<lambda>i m. m[i := fnv1a (m ! i) (d ! i)]) [0..<16] mix
                 = map (\<lambda>k. fnv1a (mix ! k) (d ! k)) [0..<16] @ drop 16 mix" for d
    using len
    by (intro nth_equalityI)
       (auto simp: fold_list_update_length nth_append
          fold_update_nth [where h = "\<lambda>i x. fnv1a x (d ! i)"])
  show ?thesis
    unfolding p search_round_def spec_main_round_def
    by (simp add: Let_def MIX_WORDS_def MATH_OPS_def search_dag_index_def
        search_dag_load_wrapped unat_mod merge fold_const_funpow search_math_op_spec)
qed

lemma length_spec_main_round:
  "length (fst p) = 64 \<Longrightarrow> length (fst (spec_main_round dag n round p)) = 64"
  by (cases p)
     (simp add: spec_main_round_def Let_def search_math_op_spec [symmetric] length_math_ops)

lemma search_rounds_wrapped:
  "length (fst p) = 64 \<Longrightarrow>
   fold (search_round dag dag_size) rs p
     = fold (spec_main_round (wrapped_dag dag) (unat dag_size)) rs p"
proof (induction rs arbitrary: p)
  case Nil
  then show ?case by simp
next
  case (Cons r rs)
  have "search_round dag dag_size r p = spec_main_round (wrapped_dag dag) (unat dag_size) r p"
    by (rule search_round_wrapped [OF Cons.prems])
  then show ?case
    using Cons.IH [of "spec_main_round (wrapped_dag dag) (unat dag_size) r p"] Cons.prems
    by (simp add: length_spec_main_round)
qed

lemma fold_accumulate_at:
  "i < length s \<Longrightarrow>
   fold (\<lambda>j s'. s'[i := g (s' ! i) j]) js (s[i := a]) = s[i := foldl g a js]"
  by (induction js arbitrary: a) simp_all

lemma search_compress_spec:
  assumes "length state = 25"
  shows "search_compress mix state = spec_compress mix @ drop 8 state"
proof -
  have inner: "fold (\<lambda>j s'. s'[i := fnv1a (s' ! i) (mix ! (i * 8 + j))]) [Suc 0..<8] (s[i := mix ! (i * 8)])
          = s[i := foldl fnv1a (mix ! (i * 8)) (map (\<lambda>j. mix ! (i * 8 + j)) [Suc 0..<8])]"
    if "i < length s" for i and s :: "uint list"
    using fold_accumulate_at [OF that, of "\<lambda>x j. fnv1a x (mix ! (i * 8 + j))" "[Suc 0..<8]" "mix ! (i * 8)"]
    by (simp add: foldl_map del: upt_rec_numeral)
  let ?h = "\<lambda>i. foldl fnv1a (mix ! (i * 8)) (map (\<lambda>j. mix ! (i * 8 + j)) [Suc 0..<8])"
  have outer: "fold (\<lambda>i s. fold (\<lambda>j s'. s'[i := fnv1a (s' ! i) (mix ! (i * 8 + j))]) [Suc 0..<8]
                               (s[i := mix ! (i * 8)])) is s
                 = fold (\<lambda>i s. s[i := ?h i]) is s"
    if "\<forall>i \<in> set is. i < length s" for "is" and s :: "uint list"
    using that
  proof (induction "is" arbitrary: s)
    case Nil
    then show ?case by simp
  next
    case (Cons i "is")
    then show ?case by (simp add: inner del: upt_rec_numeral)
  qed
  have "search_compress mix state = fold (\<lambda>i s. s[i := ?h i]) [0..<8] state"
    using outer [of "[0..<8]" state] assms
    by (simp add: search_compress_def del: upt_rec_numeral)
  also have "\<dots> = spec_compress mix @ drop 8 state"
    using assms
    by (intro nth_equalityI)
       (auto simp: fold_list_update_length fold_set_nth spec_compress_def nth_append
          simp del: upt_rec_numeral)
  finally show ?thesis .
qed

lemma length_spec_compress: "length (spec_compress mix) = 8"
  by (simp add: spec_compress_def)

lemma search_finalize_spec:
  assumes "length state = 25"
  shows "fold (\<lambda>i s. s[i := 0]) [8..<25] (search_compress mix state)
           = spec_compress mix @ replicate 17 0"
  using assms
  by (intro nth_equalityI)
     (auto simp: search_compress_spec fold_list_update_length fold_set_nth nth_append
        length_spec_compress simp del: upt_rec_numeral)

lemma search_final_state_wrapped:
  "search_final_state dag dag_size header x
     = spec_final_state header x (wrapped_dag dag) (unat dag_size)"
proof -
  let ?st = "keccak_f800 (spec_seed_state header x)"
  have l25: "length ?st = 25"
    by (simp add: length_keccak_f800 spec_seed_state_def)
  have l64: "length (fst (spec_mix_init ?st, spec_rng_seed ?st)) = 64"
    by (simp add: spec_mix_init_def)
  have rounds: "fold (search_round dag dag_size) [0..<64] (spec_mix_init ?st, spec_rng_seed ?st)
                  = fold (spec_main_round (wrapped_dag dag) (unat dag_size)) [0..<64]
                      (spec_mix_init ?st, spec_rng_seed ?st)"
    by (rule search_rounds_wrapped [OF l64])
  show ?thesis
    unfolding search_final_state_def spec_final_state_def
    by (simp add: Let_def split_def DAG_LOADS_def search_init_state_spec search_init_mix_spec
        search_init_rng_spec rounds search_finalize_spec [OF l25] del: upt_rec_numeral)
qed

text \<open>For every item count but 0, the kernel computes the hash of the mix search on the wrapped DAG.\<close>

lemma search_hash_high_wrapped:
  "dag_size \<noteq> 0 \<Longrightarrow>
   search_hash_high dag dag_size header x
     = Some (spec_hash_high header x (wrapped_dag dag) (unat dag_size))"
  by (simp add: search_hash_high_def spec_hash_high_def Let_def search_final_state_wrapped)

text \<open>Up to \<open>2^28\<close> items no offset wraps, and the kernel computes the hash of the mix search.\<close>

lemma spec_dag_item_wrapped:
  "j < 2 ^ 28 \<Longrightarrow> spec_dag_item (wrapped_dag dag) j = spec_dag_item dag j"
  by (simp add: spec_dag_item_def wrapped_dag_def)

lemma spec_main_round_wrapped:
  assumes "0 < n" and "n \<le> 2 ^ 28"
  shows "spec_main_round (wrapped_dag dag) n = spec_main_round dag n"
proof -
  have "spec_dag_item (wrapped_dag dag) (v mod n) = spec_dag_item dag (v mod n)" for v
  proof (rule spec_dag_item_wrapped)
    have "v mod n < n" using assms(1) by simp
    then show "v mod n < 2 ^ 28" using assms(2) by simp
  qed
  then show ?thesis
    by (simp add: fun_eq_iff spec_main_round_def)
qed

lemma search_hash_high_spec:
  assumes "dag_size \<noteq> 0" and "unat dag_size \<le> 2 ^ 28"
  shows "search_hash_high dag dag_size header x
           = Some (spec_hash_high header x dag (unat dag_size))"
proof -
  have "0 < unat dag_size" using assms(1) by (simp add: unat_gt_0)
  then have "spec_main_round (wrapped_dag dag) (unat dag_size) = spec_main_round dag (unat dag_size)"
    using assms(2) by (rule spec_main_round_wrapped)
  then have "spec_hash_high header x (wrapped_dag dag) (unat dag_size)
               = spec_hash_high header x dag (unat dag_size)"
    by (simp add: spec_hash_high_def spec_final_state_def)
  then show ?thesis using search_hash_high_wrapped [OF assms(1)] by simp
qed

subsection \<open>Round 0 of the search at the all-zero header with nonce 1\<close>

lemma search_init_state_zero_1:
  "search_init_state (\<lambda>_. 0) 1 =
     [0, 0, 0, 0, 0, 0, 0, 0, 0, 0, 0, 0, 0, 0, 0, 0, 0, 0, 0, 1, 0, 0, 0, 0, 0]"
  by (simp add: search_init_state_def upt_numeral_unfold replicate_numeral_unfold)

lemma keccak_zero_header_nonce_1:
  "keccak_f800 [0, 0, 0, 0, 0, 0, 0, 0, 0, 0, 0, 0, 0, 0, 0, 0, 0, 0, 0, 1, 0, 0, 0, 0, 0] =
     [1905071522, 740272809, 4045792972, 2258917076, 1432974905, 2541748735,
      657239379, 2890353240, 2467028240, 2050903301, 1111089482, 890474913,
      3164479784, 387481757, 4140642097, 3193542515, 3950010808, 1681936004,
      2826860255, 2572760439, 2850459971, 480485173, 2244750049, 1387717934,
      1204236203]"
  by (simp add: keccak_f800_def upt_numeral_unfold keccak_round_def theta_explicit
      rho_pi_explicit chi_explicit iota_def keccak_rc_def ROTL32_eval not_and_eval Let_def)

lemma round0_index:
  "search_dag_index 0 (search_init_mix (keccak_f800 (search_init_state (\<lambda>_. 0) 1))) 0x20000000
     = 419610193"
proof -
  let ?st = "keccak_f800 (search_init_state (\<lambda>_. 0) 1)"
  have m0: "search_init_mix ?st ! 0 = 1905071522"
    by (simp add: search_init_mix_spec spec_mix_init_def search_init_state_zero_1
        keccak_zero_header_nonce_1 MIX_WORDS_def)
  have m1: "search_init_mix ?st ! Suc 0 = 740272809"
    by (simp add: search_init_mix_spec spec_mix_init_def search_init_state_zero_1
        keccak_zero_header_nonce_1 MIX_WORDS_def)
  show ?thesis
    by (simp add: search_dag_index_def m0 m1 fnv1a_def FNV_PRIME_def MIX_WORDS_def)
qed

lemma round0_loads:
  "search_dag_load (\<lambda>a. of_nat (a div 16)) 419610193 = replicate 16 151174737
   \<and> spec_dag_item (\<lambda>a. of_nat (a div 16)) 419610193 = replicate 16 419610193"
  by (simp add: search_dag_load_def spec_dag_item_def upt_16 replicate_numeral_unfold)

text \<open>
  Claim C2: for every 20-word header, 64-bit nonce, DAG of \<open>n_dag \<ge> 1\<close> items and target, the
  search kernel computes \<open>hash_high\<close> by the steps of the mix search, each of the 64 rounds
  loading DAG item \<open>fnv1a(round XOR mix[round mod 64], mix[(round + 1) mod 64]) mod n_dag\<close>,
  and flags the nonce exactly when \<open>hash_high \<le> target\<close>.  The kernel agrees with those
  steps for \<open>n_dag \<le> 2^28\<close> (lemma \<open>search_hash_high_spec\<close>).  The load offset
  \<open>dag_idx * 16 + i\<close> is a 32-bit product, so that in general the kernel runs the steps on the
  DAG wrapped at \<open>2^32\<close> words (lemma \<open>search_hash_high_wrapped\<close>).  With the all-zero
  header, nonce 1 and \<open>n_dag = 2^29\<close> (epoch 20), round 0 selects index 419610193, and on
  the DAG whose item \<open>j\<close> holds \<open>j\<close> in each word the kernel loads the words of item
  \<open>419610193 - 2^28 = 151174737\<close> where the claimed step loads those of item 419610193.
  With a DAG whose items from \<open>2^28\<close> on are all ones the kernel returns, for every header and
  nonce, the hash that the steps give for the all-zero DAG.
\<close>

theorem search_loads_wrapped_items:
  "search_dag_index 0 (search_init_mix (keccak_f800 (search_init_state (\<lambda>_. 0) 1))) 0x20000000
     = 419610193
   \<and> search_dag_load (\<lambda>a. of_nat (a div 16)) 419610193 = replicate 16 151174737
   \<and> spec_dag_item (\<lambda>a. of_nat (a div 16)) 419610193 = replicate 16 419610193
   \<and> (\<forall>header x. search_hash_high (\<lambda>a. if a < 2 ^ 32 then 0 else 1) 0x20000000 header x
                   = Some (spec_hash_high header x (\<lambda>_. 0) 0x20000000))"
proof -
  have w: "wrapped_dag (\<lambda>a. if a < 4294967296 then 0 else 1) = (\<lambda>_. 0)"
    by (simp add: wrapped_dag_def fun_eq_iff)
  have c: "search_hash_high (\<lambda>a. if a < 2 ^ 32 then 0 else 1) 0x20000000 header x
             = Some (spec_hash_high header x (\<lambda>_. 0) 0x20000000)" for header x
    using search_hash_high_wrapped [of "0x20000000" "\<lambda>a. if a < 2 ^ 32 then 0 else 1" header x]
    by (simp add: w)
  from round0_index round0_loads c show ?thesis by blast
qed

end
